theory Spec2Isabelle
  imports Complex_Main "HOL-Library.Multiset" "HOL-Library.Word"
begin

section \<open>Values of type \<open>double\<close>\<close>

text \<open>
  A \<open>double\<close> is NaN, an infinity or a finite number; the finite doubles are a subset
  of the reals, and the two zeros are one value here. The comparisons \<open><\<close> and \<open><=\<close> of
  C are exact on doubles: false as soon as an operand is NaN, the order of the extended
  reals otherwise (\<open>a > b\<close> is \<open>b < a\<close>).
\<close>

datatype double = NaN | MInf | Fin real | PInf

fun d_lt :: "double \<Rightarrow> double \<Rightarrow> bool" where
  "d_lt (Fin a) (Fin b) = (a < b)"
| "d_lt MInf (Fin b) = True"
| "d_lt MInf PInf = True"
| "d_lt (Fin a) PInf = True"
| "d_lt _ _ = False"

fun d_le :: "double \<Rightarrow> double \<Rightarrow> bool" where
  "d_le (Fin a) (Fin b) = (a \<le> b)"
| "d_le MInf MInf = True"
| "d_le MInf (Fin b) = True"
| "d_le MInf PInf = True"
| "d_le (Fin a) PInf = True"
| "d_le PInf PInf = True"
| "d_le _ _ = False"

text \<open>The unary minus of C on a \<open>double\<close> is exact.\<close>

fun d_neg :: "double \<Rightarrow> double" where
  "d_neg NaN = NaN"
| "d_neg MInf = PInf"
| "d_neg (Fin a) = Fin (- a)"
| "d_neg PInf = MInf"

text \<open>
  The rounded operations are not fixed here. The operations \<open>+\<close>, \<open>-\<close>, \<open>*\<close>, \<open>sqrt\<close>
  and \<open>exp\<close> on doubles and the value of a decimal literal are parameters of the model:
  whatever the platform computes, overflow to an infinity and NaN results included.
\<close>

record arith =
  d_add :: "double \<Rightarrow> double \<Rightarrow> double"
  d_sub :: "double \<Rightarrow> double \<Rightarrow> double"
  d_mul :: "double \<Rightarrow> double \<Rightarrow> double"
  d_sqrt :: "double \<Rightarrow> double"
  d_exp :: "double \<Rightarrow> double"
  d_lit :: "real \<Rightarrow> double"

lemma d_lt_irrefl: "\<not> d_lt a a"
  by (cases a) simp_all

lemma d_lt_not_NaN: "d_lt a b \<Longrightarrow> a \<noteq> NaN \<and> b \<noteq> NaN"
  by (cases a; cases b) simp_all

lemma d_le_not_NaN: "d_le a b \<Longrightarrow> a \<noteq> NaN \<and> b \<noteq> NaN"
  by (cases a; cases b) simp_all

lemma d_le_refl: "a \<noteq> NaN \<Longrightarrow> d_le a a"
  by (cases a) simp_all

lemma d_le_trans: "d_le a b \<Longrightarrow> d_le b c \<Longrightarrow> d_le a c"
  by (cases a; cases b; cases c) simp_all

lemma d_lt_imp_le: "d_lt a b \<Longrightarrow> d_le a b"
  by (cases a; cases b) simp_all

lemma not_d_le_imp_lt: "a \<noteq> NaN \<Longrightarrow> b \<noteq> NaN \<Longrightarrow> \<not> d_le a b \<Longrightarrow> d_lt b a"
  by (cases a; cases b) simp_all

lemma not_d_lt_imp_le: "a \<noteq> NaN \<Longrightarrow> b \<noteq> NaN \<Longrightarrow> \<not> d_lt a b \<Longrightarrow> d_le b a"
  by (cases a; cases b) simp_all

section \<open>Data model of firefly.c\<close>

text \<open>
  The header \<open>firefly.h\<close> is not part of the sources. The struct \<open>point\<close> is used through
  its fields \<open>x\<close> and \<open>y\<close> (here \<open>pt_x\<close>, \<open>pt_y\<close>), the struct \<open>ffly_population\<close> through
  \<open>nfflies\<close>, \<open>x_values\<close>, \<open>y_values\<close> and \<open>light_values\<close>. The type of \<open>nfflies\<close> is not
  known; population sizes are natural numbers, and the loops that count up to \<open>nfflies\<close>
  are folds over the indices below it. The counters of these loops have 32 bits
  (\<open>unsigned int\<close>, and \<open>int\<close> in \<open>move_fflies\<close>): the folds are those loops for populations
  of fewer than \<open>2\<^sup>3\<^sup>1\<close> individuals. The loop of \<open>ffa\<close> and the integers of \<open>partition\<close> and
  \<open>sort_flies\<close> are modelled with their widths.
\<close>

record point =
  pt_x :: double
  pt_y :: double

record ffly_population =
  nfflies :: nat
  x_values :: "double list"
  y_values :: "double list"
  light_values :: "double list"

text \<open>
  The three arrays of a population are allocated with \<open>nfflies\<close> cells each
  (\<open>init_fflies\<close>). An index below \<open>nfflies\<close> is in range exactly for such a population.
\<close>

definition pop_ok :: "ffly_population \<Rightarrow> bool" where
  "pop_ok pop \<longleftrightarrow>
     length (x_values pop) = nfflies pop \<and>
     length (y_values pop) = nfflies pop \<and>
     length (light_values pop) = nfflies pop"

section \<open>Boundary correction: \<open>fix_positions\<close>\<close>

text \<open>
  The body of the loop of \<open>fix_positions\<close> at index \<open>i\<close>: four conditional assignments,
  each one reading the array as the one before left it. A NaN coordinate fails all four
  tests.
\<close>

definition fix_body :: "point \<Rightarrow> point \<Rightarrow> nat \<Rightarrow> ffly_population \<Rightarrow> ffly_population" where
  "fix_body mn mx i pop =
     (let p1 = (if d_lt (x_values pop ! i) (pt_x mn)
                then pop\<lparr>x_values := (x_values pop)[i := pt_x mn]\<rparr> else pop);
          p2 = (if d_lt (pt_x mx) (x_values p1 ! i)
                then p1\<lparr>x_values := (x_values p1)[i := pt_x mx]\<rparr> else p1);
          p3 = (if d_lt (y_values p2 ! i) (pt_y mn)
                then p2\<lparr>y_values := (y_values p2)[i := pt_y mn]\<rparr> else p2);
          p4 = (if d_lt (pt_y mx) (y_values p3 ! i)
                then p3\<lparr>y_values := (y_values p3)[i := pt_y mx]\<rparr> else p3)
      in p4)"

definition fix_positions :: "ffly_population \<Rightarrow> point \<Rightarrow> point \<Rightarrow> ffly_population" where
  "fix_positions pop mn mx = fold (fix_body mn mx) [0..<nfflies pop] pop"




text \<open>What the four assignments do to one coordinate.\<close>

definition clamp1 :: "double \<Rightarrow> double \<Rightarrow> double \<Rightarrow> double" where
  "clamp1 lo hi v = (let v1 = (if d_lt v lo then lo else v) in if d_lt hi v1 then hi else v1)"

subsection \<open>The loop, index by index\<close>

lemma fix_body_nfflies: "nfflies (fix_body mn mx i pop) = nfflies pop"
  by (simp add: fix_body_def Let_def)

lemma fix_body_light: "light_values (fix_body mn mx i pop) = light_values pop"
  by (simp add: fix_body_def Let_def)

lemma fix_body_x:
  "x_values (fix_body mn mx i pop) =
     (if i < length (x_values pop)
      then (x_values pop)[i := clamp1 (pt_x mn) (pt_x mx) (x_values pop ! i)]
      else x_values pop)"
  by (cases "i < length (x_values pop)")
    (auto simp: fix_body_def Let_def clamp1_def list_update_beyond)

lemma fix_body_y:
  "y_values (fix_body mn mx i pop) =
     (if i < length (y_values pop)
      then (y_values pop)[i := clamp1 (pt_y mn) (pt_y mx) (y_values pop ! i)]
      else y_values pop)"
  by (cases "i < length (y_values pop)")
    (auto simp: fix_body_def Let_def clamp1_def list_update_beyond)

lemma fold_fix_nfflies: "nfflies (fold (fix_body mn mx) is pop) = nfflies pop"
  by (induction "is" arbitrary: pop) (simp_all add: fix_body_nfflies)

lemma fold_fix_light: "light_values (fold (fix_body mn mx) is pop) = light_values pop"
  by (induction "is" arbitrary: pop) (simp_all add: fix_body_light)

lemma fold_fix_x_length:
  "length (x_values (fold (fix_body mn mx) is pop)) = length (x_values pop)"
  by (induction "is" arbitrary: pop) (simp_all add: fix_body_x)

lemma fold_fix_y_length:
  "length (y_values (fold (fix_body mn mx) is pop)) = length (y_values pop)"
  by (induction "is" arbitrary: pop) (simp_all add: fix_body_y)

lemma fold_fix_x_nth:
  "distinct is \<Longrightarrow> k < length (x_values pop) \<Longrightarrow>
   x_values (fold (fix_body mn mx) is pop) ! k =
     (if k \<in> set is then clamp1 (pt_x mn) (pt_x mx) (x_values pop ! k) else x_values pop ! k)"
proof (induction "is" arbitrary: pop)
  case Nil
  then show ?case by simp
next
  case (Cons i "is")
  have len: "k < length (x_values (fix_body mn mx i pop))"
    using Cons.prems(2) by (simp add: fix_body_x)
  have "distinct is" and "i \<notin> set is"
    using Cons.prems(1) by simp_all
  then show ?case
    using Cons.IH [OF \<open>distinct is\<close> len] Cons.prems(2)
    by (auto simp: fix_body_x nth_list_update)
qed

lemma fold_fix_y_nth:
  "distinct is \<Longrightarrow> k < length (y_values pop) \<Longrightarrow>
   y_values (fold (fix_body mn mx) is pop) ! k =
     (if k \<in> set is then clamp1 (pt_y mn) (pt_y mx) (y_values pop ! k) else y_values pop ! k)"
proof (induction "is" arbitrary: pop)
  case Nil
  then show ?case by simp
next
  case (Cons i "is")
  have len: "k < length (y_values (fix_body mn mx i pop))"
    using Cons.prems(2) by (simp add: fix_body_y)
  have "distinct is" and "i \<notin> set is"
    using Cons.prems(1) by simp_all
  then show ?case
    using Cons.IH [OF \<open>distinct is\<close> len] Cons.prems(2)
    by (auto simp: fix_body_y nth_list_update)
qed

lemma fix_positions_x_nth:
  "k < length (x_values pop) \<Longrightarrow>
   x_values (fix_positions pop mn mx) ! k =
     (if k < nfflies pop then clamp1 (pt_x mn) (pt_x mx) (x_values pop ! k)
      else x_values pop ! k)"
  by (simp add: fix_positions_def fold_fix_x_nth)

lemma fix_positions_y_nth:
  "k < length (y_values pop) \<Longrightarrow>
   y_values (fix_positions pop mn mx) ! k =
     (if k < nfflies pop then clamp1 (pt_y mn) (pt_y mx) (y_values pop ! k)
      else y_values pop ! k)"
  by (simp add: fix_positions_def fold_fix_y_nth)

lemma fix_positions_nfflies: "nfflies (fix_positions pop mn mx) = nfflies pop"
  by (simp add: fix_positions_def fold_fix_nfflies)

lemma fix_positions_light: "light_values (fix_positions pop mn mx) = light_values pop"
  by (simp add: fix_positions_def fold_fix_light)

lemma fix_positions_x_length:
  "length (x_values (fix_positions pop mn mx)) = length (x_values pop)"
  by (simp add: fix_positions_def fold_fix_x_length)

lemma fix_positions_y_length:
  "length (y_values (fix_positions pop mn mx)) = length (y_values pop)"
  by (simp add: fix_positions_def fold_fix_y_length)


lemma clamp1_idem: "clamp1 lo hi (clamp1 lo hi v) = clamp1 lo hi v"
  by (simp add: clamp1_def Let_def d_lt_irrefl)

lemma clamp1_NaN: "clamp1 lo hi NaN = NaN"
  by (simp add: clamp1_def)



lemma clamp1_inside: "d_le lo v \<Longrightarrow> d_le v hi \<Longrightarrow> clamp1 lo hi v = v"
  by (cases lo; cases hi; cases v) (simp_all add: clamp1_def Let_def)



lemma fix_positions_idem:
  "fix_positions (fix_positions pop mn mx) mn mx = fix_positions pop mn mx"
proof -
  let ?p = "fix_positions pop mn mx"
  have x: "x_values (fix_positions ?p mn mx) = x_values ?p"
    by (rule nth_equalityI)
      (simp_all add: fix_positions_x_length fix_positions_x_nth fix_positions_nfflies
        clamp1_idem)
  have y: "y_values (fix_positions ?p mn mx) = y_values ?p"
    by (rule nth_equalityI)
      (simp_all add: fix_positions_y_length fix_positions_y_nth fix_positions_nfflies
        clamp1_idem)
  have "nfflies (fix_positions ?p mn mx) = nfflies ?p"
    and "light_values (fix_positions ?p mn mx) = light_values ?p"
    and "ffly_population.more (fix_positions ?p mn mx) = ffly_population.more ?p"
    by (simp_all add: fix_positions_nfflies fix_positions_light)
  with x y show ?thesis
    by (simp add: ffly_population.equality)
qed

section \<open>The random stream, creation and movement\<close>

text \<open>
  \<open>my_rand\<close> comes from \<open>firefly.h\<close> and is not part of the sources. It is taken as a
  recorded stream: the \<open>k\<close>-th call returns \<open>g k\<close>, and the state counts the calls made.
\<close>

type_synonym rand_stream = "nat \<Rightarrow> double"

definition my_rand :: "rand_stream \<Rightarrow> nat \<Rightarrow> double \<times> nat" where
  "my_rand g k = (g k, Suc k)"

text \<open>
  \<open>init_fflies\<close>: three zeroed arrays of \<open>ncount\<close> cells (\<open>calloc\<close>), then a loop that draws
  the x coordinate, then the y coordinate, and sets the light value to zero. Creation is
  taken to succeed: the results of \<open>malloc\<close> and \<open>calloc\<close> are not tested in the source,
  and a size that cannot be allocated is outside this model.
\<close>

definition init_body ::
  "arith \<Rightarrow> rand_stream \<Rightarrow> double \<Rightarrow> double \<Rightarrow> point \<Rightarrow> nat \<Rightarrow> ffly_population \<times> nat
     \<Rightarrow> ffly_population \<times> nat"
where
  "init_body A g xrange yrange mn i = (\<lambda>(pop, k).
     (let (u, k1) = my_rand g k;
          p1 = pop\<lparr>x_values := (x_values pop)[i := d_add A (d_mul A u xrange) (pt_x mn)]\<rparr>;
          (v, k2) = my_rand g k1;
          p2 = p1\<lparr>y_values := (y_values p1)[i := d_add A (d_mul A v yrange) (pt_y mn)]\<rparr>;
          p3 = p2\<lparr>light_values := (light_values p2)[i := Fin 0]\<rparr>
      in (p3, k2)))"

definition init_fflies ::
  "arith \<Rightarrow> rand_stream \<Rightarrow> nat \<Rightarrow> point \<Rightarrow> point \<Rightarrow> nat \<Rightarrow> ffly_population \<times> nat"
where
  "init_fflies A g ncount mn mx k =
     (let pop = \<lparr>nfflies = ncount, x_values = replicate ncount (Fin 0),
                 y_values = replicate ncount (Fin 0),
                 light_values = replicate ncount (Fin 0)\<rparr>;
          xrange = d_sub A (pt_x mx) (pt_x mn);
          yrange = d_sub A (pt_y mx) (pt_y mn)
      in fold (init_body A g xrange yrange mn) [0..<ncount] (pop, k))"

text \<open>
  The memory \<open>ffa\<close> works on: the population \<open>fflies\<close>, its copy \<open>fflies_old\<close>, the number
  of calls of \<open>my_rand\<close> so far, and the files written. \<open>move_fflies\<close> is only called with
  \<open>pop = fflies\<close> and \<open>pop_old = fflies_old\<close>, and is modelled on this memory.
\<close>

record ffa_state =
  fflies :: ffly_population
  fflies_old :: ffly_population
  rand_calls :: nat
  files :: "string \<Rightarrow> string option"

definition beta0 :: double where
  "beta0 = Fin 1.0"

text \<open>The body of the inner loop of \<open>move_fflies\<close>, for the pair \<open>(i, j)\<close>.\<close>

definition move_body ::
  "arith \<Rightarrow> rand_stream \<Rightarrow> double \<Rightarrow> double \<Rightarrow> nat \<Rightarrow> nat \<Rightarrow> ffa_state \<Rightarrow> ffa_state"
where
  "move_body A g alpha gamma i j w =
     (if j = i then w
      else if d_lt (light_values (fflies w) ! i) (light_values (fflies_old w) ! j) then
        (let xdist = d_sub A (x_values (fflies w) ! i) (x_values (fflies_old w) ! j);
             ydist = d_sub A (y_values (fflies w) ! i) (y_values (fflies_old w) ! j);
             r = d_sqrt A (d_add A (d_mul A xdist xdist) (d_mul A ydist ydist));
             beta = d_mul A beta0 (d_exp A (d_mul A (d_neg gamma) (d_mul A r r)));
             (u, k1) = my_rand g (rand_calls w);
             w1 = w\<lparr>rand_calls := k1,
                    fflies := (fflies w)\<lparr>x_values := (x_values (fflies w))
                      [i := d_add A
                              (d_add A (d_mul A (d_sub A (Fin 1) beta) (x_values (fflies w) ! i))
                                       (d_mul A beta (x_values (fflies_old w) ! j)))
                              (d_mul A alpha (d_sub A u (Fin 0.5)))]\<rparr>\<rparr>;
             (v, k2) = my_rand g (rand_calls w1);
             w2 = w1\<lparr>rand_calls := k2,
                     fflies := (fflies w1)\<lparr>y_values := (y_values (fflies w1))
                       [i := d_add A
                               (d_add A (d_mul A (d_sub A (Fin 1) beta) (y_values (fflies w1) ! i))
                                        (d_mul A beta (y_values (fflies_old w1) ! j)))
                               (d_mul A alpha (d_sub A v (Fin 0.5)))]\<rparr>\<rparr>
         in w2)
      else w)"

text \<open>The two nested loops of \<open>move_fflies\<close>, without the final boundary correction.\<close>

definition move_loops ::
  "arith \<Rightarrow> rand_stream \<Rightarrow> double \<Rightarrow> double \<Rightarrow> ffa_state \<Rightarrow> ffa_state" where
  "move_loops A g alpha gamma w =
     (let nflies = nfflies (fflies w)
      in fold (\<lambda>i. fold (move_body A g alpha gamma i) [0..<nflies]) [0..<nflies] w)"

definition move_fflies ::
  "arith \<Rightarrow> rand_stream \<Rightarrow> double \<Rightarrow> double \<Rightarrow> point \<Rightarrow> point \<Rightarrow> ffa_state \<Rightarrow> ffa_state"
where
  "move_fflies A g alpha gamma mn mx w =
     (let w1 = move_loops A g alpha gamma w
      in w1\<lparr>fflies := fix_positions (fflies w1) mn mx\<rparr>)"

section \<open>Output and the driver \<open>ffa\<close>\<close>

text \<open>
  The environment of a run: the random stream, the rendering of a \<open>double\<close> by the
  conversion \<open>%.2lf\<close> of \<open>fprintf\<close>, and whether \<open>fopen\<close> of a name in mode \<open>"wt"\<close>
  yields a stream. When it does not, \<open>output_points\<close> skips the loop and calls \<open>fclose\<close>
  on the null pointer: the run is lost.
\<close>

record env =
  rand_seq :: rand_stream
  fmt_2lf :: "double \<Rightarrow> string"
  fopen_ok :: "string \<Rightarrow> bool"

text \<open>
  What can keep \<open>ffa\<close> or \<open>sort_flies\<close> from returning: \<open>fclose\<close> on a null stream, a loop
  that never exits, an access outside an array.
\<close>

datatype error = FcloseNull | NeverReturns | OutOfBounds

definition output_line :: "env \<Rightarrow> ffly_population \<Rightarrow> nat \<Rightarrow> string" where
  "output_line E pop i =
     fmt_2lf E (x_values pop ! i) @ '' '' @ fmt_2lf E (y_values pop ! i) @ [CHR 0x0A]"

text \<open>The text that the loop of \<open>output_points\<close> prints, line after line.\<close>

definition points_text :: "env \<Rightarrow> ffly_population \<Rightarrow> string" where
  "points_text E pop = fold (\<lambda>i out. out @ output_line E pop i) [0..<nfflies pop] []"

definition output_points ::
  "env \<Rightarrow> ffly_population \<Rightarrow> string \<Rightarrow> (string \<Rightarrow> string option)
     \<Rightarrow> error + (string \<Rightarrow> string option)"
where
  "output_points E pop fname fs =
     (if fopen_ok E fname
      then Inr (fs(fname \<mapsto> points_text E pop))
      else Inl FcloseNull)"

text \<open>\<open>memcpy\<close> of \<open>n\<close> cells from \<open>src\<close> to \<open>dst\<close>.\<close>

definition memcpy :: "double list \<Rightarrow> double list \<Rightarrow> nat \<Rightarrow> double list" where
  "memcpy dst src n = take n src @ drop n dst"

type_synonym obj_func = "ffly_population \<Rightarrow> ffly_population"

text \<open>
  One iteration of the loop of \<open>ffa\<close>. First the three \<open>memcpy\<close> calls and the call of
  the objective function \<open>f\<close> on \<open>fflies\<close>; then \<open>move_fflies\<close>.
\<close>

definition ffa_copy_eval :: "nat \<Rightarrow> obj_func \<Rightarrow> ffa_state \<Rightarrow> ffa_state" where
  "ffa_copy_eval nfireflies f w =
     (let old1 = (fflies_old w)\<lparr>x_values :=
                   memcpy (x_values (fflies_old w)) (x_values (fflies w)) nfireflies\<rparr>;
          old2 = old1\<lparr>y_values :=
                   memcpy (y_values old1) (y_values (fflies w)) nfireflies\<rparr>;
          old3 = old2\<lparr>light_values :=
                   memcpy (light_values old2) (light_values (fflies w)) nfireflies\<rparr>;
          w1 = w\<lparr>fflies_old := old3\<rparr>
      in w1\<lparr>fflies := f (fflies w1)\<rparr>)"

definition ffa_iter ::
  "arith \<Rightarrow> env \<Rightarrow> nat \<Rightarrow> point \<Rightarrow> point \<Rightarrow> obj_func \<Rightarrow> double \<Rightarrow> double \<Rightarrow> ffa_state
     \<Rightarrow> ffa_state"
where
  "ffa_iter A E nfireflies mn mx f alpha gamma w =
     move_fflies A (rand_seq E) alpha gamma mn mx (ffa_copy_eval nfireflies f w)"

text \<open>
  The loop \<open>for (i=0; i < niteration; i++)\<close> of \<open>ffa\<close>: the counter \<open>i\<close> is an
  \<open>unsigned int\<close> of 32 bits and wraps around, the bound \<open>niteration\<close> is a \<open>size_t\<close>. When
  the loop never exits the value is \<open>None\<close>.
\<close>

partial_function (option) ffa_for ::
  "(ffa_state \<Rightarrow> ffa_state) \<Rightarrow> nat \<Rightarrow> 32 word \<Rightarrow> ffa_state \<Rightarrow> ffa_state option"
where
  "ffa_for body niteration i w =
     (if unat i < niteration then ffa_for body niteration (i + 1) (body w) else Some w)"

text \<open>The memory of \<open>ffa\<close> when the loop is entered, before \<open>start.dat\<close> is written.\<close>

definition ffa_init ::
  "arith \<Rightarrow> env \<Rightarrow> nat \<Rightarrow> point \<Rightarrow> point \<Rightarrow> (string \<Rightarrow> string option) \<Rightarrow> ffa_state"
where
  "ffa_init A E nfireflies mn mx fs =
     (let (p, k1) = init_fflies A (rand_seq E) nfireflies mn mx 0;
          (q, k2) = init_fflies A (rand_seq E) nfireflies mn mx k1
      in \<lparr>fflies = p, fflies_old = q, rand_calls = k2, files = fs\<rparr>)"

text \<open>
  \<open>ffa\<close>, from the files \<open>fs\<close> present before the run. The returned point \<open>p\<close> is never
  assigned in the source and is not part of the model; the result is the memory at the end.
\<close>

definition ffa ::
  "arith \<Rightarrow> env \<Rightarrow> nat \<Rightarrow> nat \<Rightarrow> point \<Rightarrow> point \<Rightarrow> obj_func \<Rightarrow> (string \<Rightarrow> string option)
     \<Rightarrow> error + ffa_state"
where
  "ffa A E nfireflies niteration mn mx f fs =
     (let alpha = d_lit A 0.2;
          gamma = Fin 1.0;
          w0 = ffa_init A E nfireflies mn mx fs
      in case output_points E (fflies w0) ''start.dat'' (files w0) of
           Inl e \<Rightarrow> Inl e
         | Inr fs1 \<Rightarrow>
             (case ffa_for (ffa_iter A E nfireflies mn mx f alpha gamma) niteration 0
                     (w0\<lparr>files := fs1\<rparr>) of
                None \<Rightarrow> Inl NeverReturns
              | Some w2 \<Rightarrow>
                  (case output_points E (fflies w2) ''end.dat'' (files w2) of
                     Inl e \<Rightarrow> Inl e
                   | Inr fs2 \<Rightarrow> Inr (w2\<lparr>files := fs2\<rparr>))))"

subsection \<open>When the loop of \<open>ffa\<close> exits\<close>

lemma fold_const_funpow: "fold (\<lambda>i. body) xs w = (body ^^ length xs) w"
  by (induction xs arbitrary: w) (simp_all add: funpow_swap1)

lemma ffa_for_from:
  "unat i \<le> niteration \<Longrightarrow> niteration < 2 ^ 32 \<Longrightarrow>
   ffa_for body niteration i w = Some ((body ^^ (niteration - unat i)) w)"
proof (induction "niteration - unat i" arbitrary: i w)
  case 0
  then show ?case
    by (subst ffa_for.simps) simp
next
  case (Suc d)
  then have less: "unat i < niteration"
    by simp
  then have "unat i + 1 < 2 ^ 32"
    using Suc.prems(2) by simp
  then have next_i: "unat (i + 1) = unat i + 1"
    by (simp add: unat_add_lem [THEN iffD1])
  have "ffa_for body niteration (i + 1) (body w)
      = Some ((body ^^ (niteration - unat (i + 1))) (body w))"
    using Suc.hyps(2) less Suc.prems(2) next_i by (intro Suc.hyps(1)) simp_all
  moreover have "niteration - unat i = Suc (niteration - unat (i + 1))"
    using less next_i by simp
  ultimately show ?case
    using less by (subst ffa_for.simps) (simp add: funpow_swap1)
qed

lemma ffa_for_exits:
  "niteration < 2 ^ 32 \<Longrightarrow>
   ffa_for body niteration 0 w = Some (fold (\<lambda>i. body) [0..<niteration] w)"
  by (simp add: ffa_for_from fold_const_funpow)

lemma ffa_for_Some_bound:
  assumes "ffa_for body niteration i w = Some w'"
  shows "niteration < 2 ^ 32"
proof (rule ffa_for.raw_induct
    [where P = "\<lambda>body niteration i w y. niteration < 2 ^ 32", OF _ assms])
  fix f :: "(ffa_state \<Rightarrow> ffa_state) \<Rightarrow> nat \<Rightarrow> 32 word \<Rightarrow> ffa_state \<Rightarrow> ffa_state option"
    and b n and k :: "32 word" and v y
  assume IH: "\<And>b n k v y. f b n k v = Some y \<Longrightarrow> n < 2 ^ 32"
    and eq: "(if unat k < n then f b n (k + 1) (b v) else Some v) = Some y"
  show "n < 2 ^ 32"
  proof (cases "unat k < n")
    case True
    then show ?thesis
      using IH eq by simp
  next
    case False
    have "unat k < 2 ^ 32"
      using unsigned_less [of k, where 'a = nat] by simp
    then show ?thesis
      using False by simp
  qed
qed

lemma ffa_for_hangs: "2 ^ 32 \<le> niteration \<Longrightarrow> ffa_for body niteration i w = None"
  using ffa_for_Some_bound [of body niteration i w] by (cases "ffa_for body niteration i w") auto

section \<open>Machine integers\<close>

text \<open>
  Facts on the conversions between \<open>int\<close> (32 bits, read by \<open>sint\<close>), \<open>unsigned int\<close> (32
  bits, read by \<open>uint\<close>) and \<open>size_t\<close> (64 bits, read by \<open>uint\<close>).
\<close>

lemma sint_word_of_int_small:
  "- (2 ^ 31) \<le> k \<Longrightarrow> k < 2 ^ 31 \<Longrightarrow> sint (word_of_int k :: 32 word) = k"
  by (simp add: sint_sbintrunc' signed_take_bit_int_eq_self)

lemma uint_ge_min: "- (2 ^ 31) \<le> uint (w :: 'a :: len word)"
  by (rule order_trans [of _ 0]) simp_all

lemma sint_uint_cases:
  "sint (w :: 32 word) = (if uint w < 2 ^ 31 then uint w else uint w - 2 ^ 32)"
proof (cases "uint w < 2 ^ 31")
  case True
  have "sint (word_of_int (uint w) :: 32 word) = uint w"
    by (rule sint_word_of_int_small) (use True uint_ge_min [of w] in simp_all)
  then show ?thesis
    using True by (simp only: word_of_int_uint if_True)
next
  case False
  have lt: "uint w < 2 ^ 32"
    using uint_lt2p [of w] by simp
  have "sint (word_of_int (uint w - 2 ^ 32) :: 32 word) = uint w - 2 ^ 32"
    by (rule sint_word_of_int_small) (use False lt in simp_all)
  moreover have "(word_of_int (uint w - 2 ^ 32) :: 32 word) = word_of_int (uint w)"
    by (simp add: word_of_int_eq_iff take_bit_int_def)
  ultimately show ?thesis
    using False by (simp only: word_of_int_uint if_False)
qed

lemma uint_nonneg_sint: "0 \<le> sint (w :: 32 word) \<Longrightarrow> uint w = sint w"
  using uint_lt2p [of w] by (simp add: sint_uint_cases split: if_splits)

lemma uint_neg_sint: "sint (w :: 32 word) < 0 \<Longrightarrow> uint w = sint w + 2 ^ 32"
  using uint_ge_0 [of w] by (simp add: sint_uint_cases split: if_splits)

lemma uint_scast: "uint (scast (w :: 32 word) :: 64 word) = sint w mod 2 ^ 64"
  by (simp only: scast_eq uint_word_of_int) simp

lemma uint_scast_nonneg: "0 \<le> sint (w :: 32 word) \<Longrightarrow> uint (scast w :: 64 word) = sint w"
  using sint_lt [of w] by (simp add: uint_scast)

lemma uint_scast_neg:
  "sint (w :: 32 word) < 0 \<Longrightarrow> uint (scast w :: 64 word) = sint w + 2 ^ 64"
proof -
  assume neg: "sint w < 0"
  have "- (2 ^ 31) \<le> sint w"
    using sint_ge [of w] by simp
  then have "(sint w + 2 ^ 64) mod 2 ^ 64 = sint w + 2 ^ 64"
    using neg by (intro mod_pos_pos_trivial) simp_all
  then show ?thesis
    by (simp add: uint_scast)
qed

lemma uint_pred_64: "1 \<le> uint (idx :: 64 word) \<Longrightarrow> uint (idx - 1) = uint idx - 1"
  by (simp add: uint_sub_if')

lemma uint_succ_64: "uint (idx :: 64 word) < 2 ^ 63 \<Longrightarrow> uint (idx + 1) = uint idx + 1"
  using uint_ge_0 [of idx] by (simp add: uint_plus_if')

lemma sint_ucast_small:
  assumes "uint (w :: 64 word) < 2 ^ 31"
  shows "sint (ucast w :: 32 word) = uint w"
proof -
  have "sint (word_of_int (uint w) :: 32 word) = uint w"
    by (rule sint_word_of_int_small) (use assms uint_ge_min [of w] in simp_all)
  then show ?thesis
    by (simp only: ucast_eq)
qed

lemma sint_ucast_pred:
  assumes "uint (idx :: 64 word) < 2 ^ 31"
  shows "sint (ucast (idx - 1) :: 32 word) = uint idx - 1"
proof (cases "uint idx = 0")
  case True
  then have "idx = 0"
    by (simp add: uint_0_iff)
  have "(ucast (- 1 :: 64 word) :: 32 word) = - 1"
    by (rule bit_word_eqI) (auto simp: bit_simps)
  then show ?thesis
    using True \<open>idx = 0\<close> by simp
next
  case False
  then have pos: "1 \<le> uint idx"
    using uint_ge_0 [of idx] by linarith
  have eq: "uint (idx - 1) = uint idx - 1"
    using pos by (rule uint_pred_64)
  have "sint (ucast (idx - 1) :: 32 word) = uint (idx - 1)"
    by (rule sint_ucast_small) (use assms pos in \<open>simp add: eq\<close>)
  then show ?thesis
    by (simp only: eq)
qed

lemma sint_ucast_succ:
  assumes "uint (idx :: 64 word) < 2 ^ 31 - 1"
  shows "sint (ucast (idx + 1) :: 32 word) = uint idx + 1"
proof -
  have eq: "uint (idx + 1) = uint idx + 1"
    using assms by (intro uint_succ_64) simp
  have "sint (ucast (idx + 1) :: 32 word) = uint (idx + 1)"
    by (rule sint_ucast_small) (use assms in \<open>simp add: eq\<close>)
  then show ?thesis
    by (simp only: eq)
qed

lemma sint_ucast_succ_top:
  assumes "uint (idx :: 64 word) = 2 ^ 31 - 1"
  shows "sint (ucast (idx + 1) :: 32 word) < 0"
proof -
  have eq: "uint (idx + 1) = 2 ^ 31"
    using assms uint_succ_64 [of idx] by simp
  have "sint (word_of_int (2 ^ 31) :: 32 word) < 0"
    by (simp add: int_word_sint)
  then show ?thesis
    by (simp only: ucast_eq eq)
qed

lemma sint_add_small:
  assumes "0 \<le> sint (a :: 32 word)" "0 \<le> sint (b :: 32 word)" "sint a + sint b < 2 ^ 31"
  shows "sint (a + b) = sint a + sint b"
  using assms by (simp add: sint_word_add signed_take_bit_int_eq_self)

lemma sint_word_of_nat_small: "n < 2 ^ 31 \<Longrightarrow> sint (word_of_nat n :: 32 word) = int n"
proof -
  assume "n < 2 ^ 31"
  then have "int n < 2 ^ 31"
    by (metis of_nat_less_iff of_nat_numeral of_nat_power)
  then have "sint (word_of_int (int n) :: 32 word) = int n"
    by (intro sint_word_of_int_small) (use uint_ge_min in simp_all)
  then show ?thesis
    by simp
qed

section \<open>Ranking: \<open>swap\<close>, \<open>partition\<close> and \<open>sort_flies\<close>\<close>

text \<open>
  The arrays of a population are C arrays of \<open>double\<close> in a 64-bit address space: a cell
  has an index that is not negative, below the number of cells and below \<open>2\<^sup>6\<^sup>1\<close>. An
  access at any other index is outside the array and is the error \<open>OutOfBounds\<close>. An
  index is given as the integer it denotes: \<open>sint\<close> of an \<open>int\<close>, \<open>uint\<close> of an
  \<open>unsigned int\<close> or a \<open>size_t\<close>.
\<close>

definition cell_ok :: "double list \<Rightarrow> int \<Rightarrow> bool" where
  "cell_ok a k \<longleftrightarrow> 0 \<le> k \<and> k < int (length a) \<and> k < 2 ^ 61"

text \<open>\<open>swap\<close>, on the cells \<open>d1\<close> and \<open>d2\<close> of one array.\<close>

definition swap :: "double list \<Rightarrow> nat \<Rightarrow> nat \<Rightarrow> double list" where
  "swap a d1 d2 = (let temp = a ! d1; a1 = a[d1 := a ! d2] in a1[d2 := temp])"

text \<open>The three calls of \<open>swap\<close> that exchange the individuals \<open>i\<close> and \<open>j\<close>.\<close>

definition swap3 :: "ffly_population \<Rightarrow> nat \<Rightarrow> nat \<Rightarrow> ffly_population" where
  "swap3 pop i j =
     (let p1 = pop\<lparr>light_values := swap (light_values pop) i j\<rparr>;
          p2 = p1\<lparr>x_values := swap (x_values p1) i j\<rparr>
      in p2\<lparr>y_values := swap (y_values p2) i j\<rparr>)"

definition cells_ok :: "ffly_population \<Rightarrow> int \<Rightarrow> bool" where
  "cells_ok pop k \<longleftrightarrow>
     cell_ok (light_values pop) k \<and> cell_ok (x_values pop) k \<and> cell_ok (y_values pop) k"

text \<open>The same three calls at integer indices, each access checked.\<close>

definition swap_cells :: "ffly_population \<Rightarrow> int \<Rightarrow> int \<Rightarrow> error + ffly_population" where
  "swap_cells pop i j =
     (if cells_ok pop i \<and> cells_ok pop j then Inr (swap3 pop (nat i) (nat j))
      else Inl OutOfBounds)"

text \<open>
  The body of the loop of \<open>partition\<close> for the value \<open>i\<close> of the \<open>unsigned int\<close> counter,
  on the population and the \<open>size_t\<close> index \<open>idx\<close>; an earlier error is passed on. The
  test of line 228 is the comparison \<open>\<le>\<close> of doubles, false when either side is NaN.
\<close>

definition partition_body ::
  "double \<Rightarrow> int \<Rightarrow> error + ffly_population \<times> 64 word \<Rightarrow> error + ffly_population \<times> 64 word"
where
  "partition_body intensity i s =
     (case s of
        Inl e \<Rightarrow> Inl e
      | Inr (pop, idx) \<Rightarrow>
          if \<not> cell_ok (light_values pop) i then Inl OutOfBounds
          else if d_le (light_values pop ! nat i) intensity
          then (case swap_cells pop i (uint idx) of
                  Inl e \<Rightarrow> Inl e
                | Inr p1 \<Rightarrow> Inr (p1, idx + 1))
          else Inr (pop, idx))"

text \<open>
  \<open>partition\<close>. The parameters \<open>left\<close>, \<open>right\<close> and \<open>pivot\<close> are 32-bit \<open>int\<close>s. The
  counter \<open>i\<close> is an \<open>unsigned int\<close>: it starts at \<open>left\<close> converted to unsigned and the
  test \<open>i < right\<close> compares it with \<open>right\<close> converted to unsigned, so the counter takes
  the values from \<open>uint left\<close> to \<open>uint right - 1\<close>. The index \<open>idx\<close> is a 64-bit \<open>size_t\<close>
  and starts at \<open>left\<close>, sign-extended.
\<close>

definition partition_flies ::
  "ffly_population \<Rightarrow> 32 word \<Rightarrow> 32 word \<Rightarrow> 32 word \<Rightarrow> error + ffly_population \<times> 64 word"
where
  "partition_flies pop left right pivot =
     (if \<not> cell_ok (light_values pop) (sint pivot) then Inl OutOfBounds
      else
        (let intensity = light_values pop ! nat (sint pivot)
         in case swap_cells pop (sint pivot) (sint right) of
              Inl e \<Rightarrow> Inl e
            | Inr p1 \<Rightarrow>
                (case fold (partition_body intensity) [uint left..uint right - 1]
                        (Inr (p1, scast left)) of
                   Inl e \<Rightarrow> Inl e
                 | Inr (p2, idx) \<Rightarrow>
                     (case swap_cells p2 (uint idx) (sint right) of
                        Inl e \<Rightarrow> Inl e
                      | Inr p3 \<Rightarrow> Inr (p3, idx)))))"

text \<open>
  The division of C on \<open>int\<close> truncates towards zero. The addition of two \<open>int\<close>s is taken
  to wrap around, as it does on the usual machines (in C an overflow of \<open>int\<close> is
  undefined).
\<close>

definition c_div :: "int \<Rightarrow> int \<Rightarrow> int" where
  "c_div a b = sgn a * sgn b * (\<bar>a\<bar> div \<bar>b\<bar>)"

definition int_div :: "32 word \<Rightarrow> 32 word \<Rightarrow> 32 word" where
  "int_div a b = word_of_int (c_div (sint a) (sint b))"

subsection \<open>The index that \<open>partition\<close> returns\<close>

lemma partition_body_Inl: "partition_body v i (Inl e) = Inl e"
  by (simp add: partition_body_def)

lemma fold_partition_body_Inl: "fold (partition_body v) is (Inl e) = Inl e"
  by (induction "is") (simp_all add: partition_body_Inl)

lemma partition_body_idx:
  assumes "partition_body v i (Inr (pop, idx)) = Inr (pop', idx')"
  shows "idx' = idx \<or> (idx' = idx + 1 \<and> uint idx < 2 ^ 61)"
  using assms
  by (auto simp: partition_body_def swap_cells_def cells_ok_def cell_ok_def
      split: if_splits sum.splits)

lemma fold_partition_body_idx:
  "fold (partition_body v) is (Inr (pop, idx)) = Inr (pop', idx') \<Longrightarrow>
   uint idx \<le> uint idx' \<and> uint idx' \<le> uint idx + int (length is)"
proof (induction "is" arbitrary: pop idx)
  case Nil
  then show ?case by simp
next
  case (Cons i "is")
  show ?case
  proof (cases "partition_body v i (Inr (pop, idx))")
    case (Inl e)
    then show ?thesis
      using Cons.prems by (simp add: fold_partition_body_Inl)
  next
    case (Inr s)
    obtain p1 k1 where s: "s = (p1, k1)"
      by (cases s)
    have "k1 = idx \<or> (k1 = idx + 1 \<and> uint idx < 2 ^ 61)"
      using Inr s by (intro partition_body_idx [of v i pop idx p1 k1]) simp
    then have "uint idx \<le> uint k1 \<and> uint k1 \<le> uint idx + 1"
      using uint_succ_64 [of idx] by auto
    moreover have "uint k1 \<le> uint idx' \<and> uint idx' \<le> uint k1 + int (length is)"
      using Cons.IH [of p1 k1] Cons.prems Inr s by simp
    ultimately show ?thesis by simp
  qed
qed

lemma partition_flies_idx:
  assumes "left <s right" and "partition_flies pop left right pivot = Inr (pop', idx)"
  shows "0 \<le> sint left \<and> sint left \<le> uint idx \<and> uint idx \<le> sint right"
proof -
  let ?v = "light_values pop ! nat (sint pivot)"
  from assms(2) obtain p1 where p1: "swap_cells pop (sint pivot) (sint right) = Inr p1"
    by (auto simp: partition_flies_def Let_def split: if_splits sum.splits)
  from assms(2) p1 obtain p2 k where
    f: "fold (partition_body ?v) [uint left..uint right - 1] (Inr (p1, scast left)) = Inr (p2, k)"
    by (auto simp: partition_flies_def Let_def split: if_splits sum.splits)
  from assms(2) p1 f obtain p3 where p3: "swap_cells p2 (uint k) (sint right) = Inr p3"
    and idx: "idx = k"
    by (auto simp: partition_flies_def Let_def split: if_splits sum.splits)
  have r0: "0 \<le> sint right"
    using p1 by (simp add: swap_cells_def cells_ok_def cell_ok_def split: if_splits)
  have k61: "uint k < 2 ^ 61"
    using p3 by (simp add: swap_cells_def cells_ok_def cell_ok_def split: if_splits)
  have lr: "sint left < sint right"
    using assms(1) by (simp add: word_sless_alt)
  have ur: "uint right = sint right"
    using r0 by (rule uint_nonneg_sint)
  have fi: "uint (scast left :: 64 word) \<le> uint k \<and>
      uint k \<le> uint (scast left :: 64 word) + int (length [uint left..uint right - 1])"
    using f by (rule fold_partition_body_idx)
  have l0: "0 \<le> sint left"
  proof (rule ccontr)
    assume "\<not> 0 \<le> sint left"
    then have neg: "sint left < 0"
      by simp
    have "- (2 ^ 31) \<le> sint left"
      using sint_ge [of left] by simp
    then have "2 ^ 61 \<le> uint (scast left :: 64 word)"
      using neg by (simp add: uint_scast_neg)
    then show False
      using fi k61 by simp
  qed
  have ul: "uint left = sint left"
    using l0 by (rule uint_nonneg_sint)
  have "uint (scast left :: 64 word) = sint left"
    using l0 by (rule uint_scast_nonneg)
  then show ?thesis
    using fi l0 lr by (simp add: idx ul ur)
qed

text \<open>
  \<open>sort_flies\<close>. The sum \<open>left + right\<close> and its half are computed on \<open>int\<close>; the variable
  \<open>pivot\<close> is a \<open>size_t\<close>, so the half is sign-extended when it is stored, and \<open>pivot\<close>,
  \<open>pivot - 1\<close> and \<open>pivot + 1\<close> are cut to 32 bits when they are passed as \<open>int\<close>
  arguments. A call of \<open>partition\<close> or a recursive call that leaves the arrays ends the
  whole call with that error.
\<close>

function sort_flies :: "ffly_population \<Rightarrow> 32 word \<Rightarrow> 32 word \<Rightarrow> error + ffly_population" where
  "sort_flies pop left right =
     (if left <s right
      then (let pivot = (scast (int_div (left + right) 2) :: 64 word)
            in case partition_flies pop left right (ucast pivot) of
                 Inl e \<Rightarrow> Inl e
               | Inr (p1, pivot1) \<Rightarrow>
                   (case sort_flies p1 left (ucast (pivot1 - 1)) of
                      Inl e \<Rightarrow> Inl e
                    | Inr p2 \<Rightarrow> sort_flies p2 (ucast (pivot1 + 1)) right))
      else Inr pop)"
  by pat_completeness auto

text \<open>
  Every call of \<open>sort_flies\<close> ends. When \<open>partition\<close> returns an index, \<open>left\<close> is not
  negative and the index lies in \<open>left..right\<close>, so both recursive calls are on ranges
  shorter than \<open>right - left\<close>, or on a range that starts below zero, in which
  \<open>partition\<close> returns no index.
\<close>

definition sort_measure :: "ffly_population \<times> 32 word \<times> 32 word \<Rightarrow> nat" where
  "sort_measure = (\<lambda>(pop, left, right).
     if 0 \<le> sint left then nat (sint right - sint left) + 1 else 0)"

lemma sort_flies_total: "sort_flies_dom (pop, left, right)"
proof -
  have "All sort_flies_dom"
  proof (relation "measure sort_measure")
    show "wf (measure sort_measure)"
      by simp
  next
    fix pop :: ffly_population and left right :: "32 word" and pivot :: "64 word"
      and x p1 pivot1
    assume lr: "left <s right" and "partition_flies pop left right (ucast pivot) = Inr x"
      and "(p1, pivot1) = x"
    then have b: "0 \<le> sint left \<and> sint left \<le> uint pivot1 \<and> uint pivot1 \<le> sint right"
      using partition_flies_idx [of left right pop "ucast pivot" p1 pivot1] by simp
    have "uint pivot1 < 2 ^ 31"
      using b sint_lt [of right] by simp
    then have "sint (ucast (pivot1 - 1) :: 32 word) = uint pivot1 - 1"
      by (rule sint_ucast_pred)
    then show "((p1, left, ucast (pivot1 - 1)), (pop, left, right)) \<in> measure sort_measure"
      using b lr by (simp add: sort_measure_def word_sless_alt)
  next
    fix pop :: ffly_population and left right :: "32 word" and pivot :: "64 word"
      and x p1 pivot1 p2
    assume lr: "left <s right" and "partition_flies pop left right (ucast pivot) = Inr x"
      and "(p1, pivot1) = x"
    then have b: "0 \<le> sint left \<and> sint left \<le> uint pivot1 \<and> uint pivot1 \<le> sint right"
      using partition_flies_idx [of left right pop "ucast pivot" p1 pivot1] by simp
    have lt: "sint right < 2 ^ 31"
      using sint_lt [of right] by simp
    show "((p2, ucast (pivot1 + 1), right), (pop, left, right)) \<in> measure sort_measure"
    proof (cases "uint pivot1 < 2 ^ 31 - 1")
      case True
      then have "sint (ucast (pivot1 + 1) :: 32 word) = uint pivot1 + 1"
        by (rule sint_ucast_succ)
      then show ?thesis
        using b lr by (simp add: sort_measure_def word_sless_alt)
    next
      case False
      then have "uint pivot1 = 2 ^ 31 - 1"
        using b lt by simp
      then have "sint (ucast (pivot1 + 1) :: 32 word) < 0"
        by (rule sint_ucast_succ_top)
      then show ?thesis
        using b by (simp add: sort_measure_def)
    qed
  qed
  then show ?thesis
    by simp
qed

termination sort_flies
  by (simp add: sort_flies_total)

declare sort_flies.simps [simp del]

section \<open>A concrete setting\<close>

text \<open>
  For concrete runs: an arithmetic that is exact on finite values and gives NaN
  elsewhere, the rectangle \<open>[0,1] \<times> [0,1]\<close>, the objective \<open>-(x\<^sup>2 + y\<^sup>2)\<close> of the
  specification's scenario, and a random stream that returns \<open>0.5\<close> for its first eight
  calls and \<open>1\<close> afterwards. The renderer is a stand-in.
\<close>

fun lift1 :: "(real \<Rightarrow> real) \<Rightarrow> double \<Rightarrow> double" where
  "lift1 f (Fin a) = Fin (f a)"
| "lift1 f _ = NaN"

fun lift2 :: "(real \<Rightarrow> real \<Rightarrow> real) \<Rightarrow> double \<Rightarrow> double \<Rightarrow> double" where
  "lift2 f (Fin a) (Fin b) = Fin (f a b)"
| "lift2 f _ _ = NaN"

definition ex_arith :: arith where
  "ex_arith = \<lparr>d_add = lift2 (+), d_sub = lift2 (-), d_mul = lift2 (*),
     d_sqrt = lift1 sqrt, d_exp = lift1 exp, d_lit = Fin\<rparr>"

definition ex_env :: env where
  "ex_env = \<lparr>rand_seq = (\<lambda>k. if k < 8 then Fin (1/2) else Fin 1),
     fmt_2lf = (\<lambda>v. ''0.00''), fopen_ok = (\<lambda>name. True)\<rparr>"

definition ex_min :: point where
  "ex_min = \<lparr>pt_x = Fin 0, pt_y = Fin 0\<rparr>"

definition ex_max :: point where
  "ex_max = \<lparr>pt_x = Fin 1, pt_y = Fin 1\<rparr>"

definition ex_obj :: obj_func where
  "ex_obj pop = pop\<lparr>light_values :=
     map (\<lambda>i. d_neg (d_add ex_arith
                 (d_mul ex_arith (x_values pop ! i) (x_values pop ! i))
                 (d_mul ex_arith (y_values pop ! i) (y_values pop ! i))))
       [0..<nfflies pop]\<rparr>"

lemma ex_arith_fields:
  "d_add ex_arith = lift2 (+)" "d_sub ex_arith = lift2 (-)" "d_mul ex_arith = lift2 (*)"
  "d_sqrt ex_arith = lift1 sqrt" "d_exp ex_arith = lift1 exp" "d_lit ex_arith = Fin"
  by (simp_all add: ex_arith_def)

lemma ex_env_fields:
  "rand_seq ex_env = (\<lambda>k. if k < 8 then Fin (1/2) else Fin 1)"
  "fmt_2lf ex_env = (\<lambda>v. ''0.00'')" "fopen_ok ex_env = (\<lambda>name. True)"
  by (simp_all add: ex_env_def)

lemma upt_0_2: "[0..<2] = [0, Suc 0]"
  by (simp add: numeral_2_eq_2)

section \<open>Loops as folds: invariants\<close>

lemma fold_invariant:
  assumes "P s" and "\<And>x s. P s \<Longrightarrow> P (f x s)"
  shows "P (fold f xs s)"
  using assms(1) by (induction xs arbitrary: s) (simp_all add: assms(2))

lemma fold_preserved:
  assumes "\<And>x s. h (f x s) = h s"
  shows "h (fold f xs s) = h s"
  by (induction xs arbitrary: s) (simp_all add: assms)

lemma fold_invariant_set:
  assumes "P s" and "\<And>x s. x \<in> set xs \<Longrightarrow> P s \<Longrightarrow> P (f x s)"
  shows "P (fold f xs s)"
  using assms
proof (induction xs arbitrary: s)
  case Nil
  then show ?case by simp
next
  case (Cons x xs)
  have "P (f x s)"
    using Cons.prems by simp
  then show ?case
    using Cons.prems(2) by (simp add: Cons.IH)
qed

section \<open>What the movement loops leave alone\<close>

lemma move_body_old: "fflies_old (move_body A g alpha gamma i j w) = fflies_old w"
  by (simp add: move_body_def Let_def my_rand_def)


lemma move_body_nfflies:
  "nfflies (fflies (move_body A g alpha gamma i j w)) = nfflies (fflies w)"
  by (simp add: move_body_def Let_def my_rand_def)

lemma move_body_light:
  "light_values (fflies (move_body A g alpha gamma i j w)) = light_values (fflies w)"
  by (simp add: move_body_def Let_def my_rand_def)

lemma move_body_x_length:
  "length (x_values (fflies (move_body A g alpha gamma i j w))) = length (x_values (fflies w))"
  by (simp add: move_body_def Let_def my_rand_def)

lemma move_body_y_length:
  "length (y_values (fflies (move_body A g alpha gamma i j w))) = length (y_values (fflies w))"
  by (simp add: move_body_def Let_def my_rand_def)




lemma move_loops_nfflies:
  "nfflies (fflies (move_loops A g alpha gamma w)) = nfflies (fflies w)"
  unfolding move_loops_def Let_def
  by (intro fold_preserved [where h = "\<lambda>w. nfflies (fflies w)"]) (simp add: move_body_nfflies)

lemma move_loops_light:
  "light_values (fflies (move_loops A g alpha gamma w)) = light_values (fflies w)"
  unfolding move_loops_def Let_def
  by (intro fold_preserved [where h = "\<lambda>w. light_values (fflies w)"])
    (simp add: move_body_light)

lemma move_loops_x_length:
  "length (x_values (fflies (move_loops A g alpha gamma w))) = length (x_values (fflies w))"
  unfolding move_loops_def Let_def
  by (intro fold_preserved [where h = "\<lambda>w. length (x_values (fflies w))"])
    (simp add: move_body_x_length)

lemma move_loops_y_length:
  "length (y_values (fflies (move_loops A g alpha gamma w))) = length (y_values (fflies w))"
  unfolding move_loops_def Let_def
  by (intro fold_preserved [where h = "\<lambda>w. length (y_values (fflies w))"])
    (simp add: move_body_y_length)






section \<open>Boundary correction: the properties\<close>

text \<open>
  C8. Boundary correction writes positions only: the light values and the population
  size after \<open>fix_positions\<close> are those before the call.
\<close>

theorem fix_positions_frame:
  "light_values (fix_positions pop mn mx) = light_values pop \<and>
   nfflies (fix_positions pop mn mx) = nfflies pop"
proof
  show "light_values (fix_positions pop mn mx) = light_values pop"
    unfolding fix_positions_def by (rule fold_fix_light)
  show "nfflies (fix_positions pop mn mx) = nfflies pop"
    unfolding fix_positions_def by (rule fold_fix_nfflies)
qed

text \<open>
  C6. Boundary correction is idempotent: for every population and every rectangle,
  \<open>fix_positions\<close> applied twice gives the population that one application gives.
\<close>

theorem fix_positions_idempotent:
  "fix_positions (fix_positions pop mn mx) mn mx = fix_positions pop mn mx"
  by (rule fix_positions_idem)


text \<open>It fails for a NaN coordinate as well, which \<open>fix_positions\<close> leaves in place.\<close>

lemma fix_positions_keeps_NaN:
  assumes "k < length (x_values pop)" and "x_values pop ! k = NaN"
  shows "x_values (fix_positions pop mn mx) ! k = NaN"
  using assms by (simp add: fix_positions_x_nth clamp1_NaN)






section \<open>The movement rule of the specification\<close>










section \<open>Creation and the first iteration\<close>

lemma replicate_update_same: "(replicate n v)[i := v] = replicate n v"
  by (induction n arbitrary: i) (simp_all split: nat.split)

lemma init_fflies_shape:
  "nfflies (fst (init_fflies A g n mn mx k)) = n \<and>
   length (x_values (fst (init_fflies A g n mn mx k))) = n \<and>
   length (y_values (fst (init_fflies A g n mn mx k))) = n \<and>
   light_values (fst (init_fflies A g n mn mx k)) = replicate n (Fin 0)"
  unfolding init_fflies_def Let_def
  by (rule fold_invariant [where P = "\<lambda>s. nfflies (fst s) = n \<and>
        length (x_values (fst s)) = n \<and> length (y_values (fst s)) = n \<and>
        light_values (fst s) = replicate n (Fin 0)"])
    (auto simp: init_body_def my_rand_def Let_def replicate_update_same)

lemma init_fflies_ok: "pop_ok (fst (init_fflies A g n mn mx k))"
  by (simp add: pop_ok_def init_fflies_shape)

lemma ffa_init_fflies:
  "fflies (ffa_init A E n mn mx fs) = fst (init_fflies A (rand_seq E) n mn mx 0)"
  by (simp add: ffa_init_def Let_def split_beta)

lemma ffa_init_old_light:
  "light_values (fflies_old (ffa_init A E n mn mx fs)) = replicate n (Fin 0)"
  by (simp add: ffa_init_def Let_def split_beta init_fflies_shape)

lemma snapshot_light_zero:
  "light_values (fflies_old (ffa_copy_eval n f (ffa_init A E n mn mx fs))) = replicate n (Fin 0)"
  by (simp add: ffa_copy_eval_def Let_def memcpy_def ffa_init_old_light ffa_init_fflies
      init_fflies_shape)

lemma move_body_unmoved:
  assumes "j < nfflies (fflies w) \<longrightarrow>
             \<not> d_lt (light_values (fflies w) ! i) (light_values (fflies_old w) ! j)"
    and "j < nfflies (fflies w)"
  shows "x_values (fflies (move_body A g alpha gamma i' j w)) ! i = x_values (fflies w) ! i \<and>
         y_values (fflies (move_body A g alpha gamma i' j w)) ! i = y_values (fflies w) ! i"
proof (cases "i' = i")
  case True
  then show ?thesis
    using assms by (simp add: move_body_def)
next
  case False
  then show ?thesis
    by (simp add: move_body_def Let_def my_rand_def)
qed

lemma move_loops_unmoved:
  assumes "\<forall>j < nfflies (fflies w).
             \<not> d_lt (light_values (fflies w) ! i) (light_values (fflies_old w) ! j)"
  shows "x_values (fflies (move_loops A g alpha gamma w)) ! i = x_values (fflies w) ! i \<and>
         y_values (fflies (move_loops A g alpha gamma w)) ! i = y_values (fflies w) ! i"
proof -
  let ?Q = "\<lambda>v. nfflies (fflies v) = nfflies (fflies w) \<and>
      light_values (fflies v) = light_values (fflies w) \<and> fflies_old v = fflies_old w \<and>
      x_values (fflies v) ! i = x_values (fflies w) ! i \<and>
      y_values (fflies v) ! i = y_values (fflies w) ! i"
  have step: "?Q (move_body A g alpha gamma i' j v)"
    if "?Q v" and "j \<in> set [0..<nfflies (fflies w)]" for i' j v
  proof -
    have "j < nfflies (fflies v)"
      using that by simp
    moreover have "\<not> d_lt (light_values (fflies v) ! i) (light_values (fflies_old v) ! j)"
      using that assms by simp
    ultimately show ?thesis
      using move_body_unmoved [of j v i A g alpha gamma i'] that(1)
      by (simp add: move_body_nfflies move_body_light move_body_old)
  qed
  have inner: "?Q (fold (move_body A g alpha gamma i') [0..<nfflies (fflies w)] v)"
    if "?Q v" for i' v
    by (rule fold_invariant_set [where P = ?Q]) (use that step in blast)+
  have "?Q (fold (\<lambda>i'. fold (move_body A g alpha gamma i') [0..<nfflies (fflies w)])
      [0..<nfflies (fflies w)] w)"
    by (rule fold_invariant [where P = ?Q]) (use inner in simp_all)
  then show ?thesis
    by (simp add: move_loops_def Let_def)
qed

lemma move_fflies_clamps:
  assumes "\<forall>j < nfflies (fflies w).
             \<not> d_lt (light_values (fflies w) ! i) (light_values (fflies_old w) ! j)"
    and "pop_ok (fflies w)" and "i < nfflies (fflies w)"
  shows "x_values (fflies (move_fflies A g alpha gamma mn mx w)) ! i
           = clamp1 (pt_x mn) (pt_x mx) (x_values (fflies w) ! i) \<and>
         y_values (fflies (move_fflies A g alpha gamma mn mx w)) ! i
           = clamp1 (pt_y mn) (pt_y mx) (y_values (fflies w) ! i)"
proof -
  let ?v = "move_loops A g alpha gamma w"
  have same: "x_values (fflies ?v) ! i = x_values (fflies w) ! i"
    "y_values (fflies ?v) ! i = y_values (fflies w) ! i"
    using move_loops_unmoved [OF assms(1)] by simp_all
  have len: "i < length (x_values (fflies ?v))" "i < length (y_values (fflies ?v))"
    using assms(2,3) by (simp_all add: move_loops_x_length move_loops_y_length pop_ok_def)
  show ?thesis
    using assms(3) same
    by (simp add: move_fflies_def Let_def fix_positions_x_nth [OF len(1)]
        fix_positions_y_nth [OF len(2)] move_loops_nfflies)
qed

text \<open>The memory of the first iteration of \<open>ffa\<close> at the moment \<open>move_fflies\<close> is called.\<close>

definition first_memory ::
  "arith \<Rightarrow> env \<Rightarrow> nat \<Rightarrow> point \<Rightarrow> point \<Rightarrow> obj_func \<Rightarrow> (string \<Rightarrow> string option) \<Rightarrow> ffa_state"
where
  "first_memory A E n mn mx f fs = ffa_copy_eval n f (ffa_init A E n mn mx fs)"

text \<open>
  A run with one individual, created at \<open>(0.5, 0.5)\<close>, in the rectangle of minimum
  \<open>(1, 1)\<close> and maximum \<open>(0, 0)\<close>, with an objective function that gives every individual
  the intensity \<open>1.5\<close>.
\<close>

definition ex_env_half :: env where
  "ex_env_half = \<lparr>rand_seq = (\<lambda>k. Fin (1/2)), fmt_2lf = (\<lambda>v. ''0.00''),
     fopen_ok = (\<lambda>name. True)\<rparr>"

definition ex_bright :: obj_func where
  "ex_bright pop = pop\<lparr>light_values := replicate (nfflies pop) (Fin (3/2))\<rparr>"

lemma ex_bright_memory:
  "first_memory ex_arith ex_env_half 1 ex_max ex_min ex_bright fs =
     \<lparr>fflies = \<lparr>nfflies = 1, x_values = [Fin (1/2)], y_values = [Fin (1/2)],
                 light_values = [Fin (3/2)]\<rparr>,
      fflies_old = \<lparr>nfflies = 1, x_values = [Fin (1/2)], y_values = [Fin (1/2)],
                     light_values = [Fin 0]\<rparr>,
      rand_calls = 4, files = fs\<rparr>"
  by (simp add: first_memory_def ffa_copy_eval_def memcpy_def ffa_init_def init_fflies_def
      init_body_def my_rand_def ex_env_half_def ex_arith_fields ex_min_def ex_max_def
      ex_bright_def Let_def)

text \<open>
  C9, as stated, fails. The snapshot's intensities are zero, but the first movement call
  ends with boundary correction, which moves an individual whatever its intensity. In
  the run above the individual has the intensity \<open>1.5\<close>, which is not negative, and the
  first movement call takes its x coordinate from \<open>0.5\<close> to \<open>0\<close>.
\<close>

theorem first_movement_counterexample:
  "light_values (fflies_old
      (first_memory ex_arith ex_env_half 1 ex_max ex_min ex_bright Map.empty)) = [Fin 0] \<and>
   light_values (fflies
      (first_memory ex_arith ex_env_half 1 ex_max ex_min ex_bright Map.empty)) ! 0 = Fin (3/2) \<and>
   \<not> d_lt (Fin (3/2)) (Fin 0) \<and>
   x_values (fflies
      (first_memory ex_arith ex_env_half 1 ex_max ex_min ex_bright Map.empty)) ! 0 = Fin (1/2) \<and>
   x_values (fflies (move_fflies ex_arith (rand_seq ex_env_half) (d_lit ex_arith 0.2) (Fin 1.0)
      ex_max ex_min
      (first_memory ex_arith ex_env_half 1 ex_max ex_min ex_bright Map.empty))) ! 0 = Fin 0"
  unfolding ex_bright_memory
  by (simp add: move_fflies_def move_loops_def move_body_def fix_positions_def fix_body_def
      ex_min_def ex_max_def Let_def)

text \<open>
  C9, amended. On the first iteration of the driver the snapshot's intensity values are
  all zero. Consequently, for an objective function that keeps the population size, the
  two loops of the first movement call change the position of an individual only if its
  freshly evaluated intensity is strictly negative (an intensity that is not a number is
  not). The boundary correction that ends the call applies to every individual: an
  individual whose intensity is not negative leaves the call with each coordinate
  clamped, first to the minimum and then to the maximum of the rectangle, and so with
  its position unchanged when it lies in the rectangle.
\<close>

theorem first_iteration_moves_negative_only:
  assumes "nfflies (f (fflies (ffa_init A E n mn mx fs))) = n"
  shows "light_values (fflies_old (first_memory A E n mn mx f fs)) = replicate n (Fin 0) \<and>
    (x_values (fflies (move_loops A g alpha gamma (first_memory A E n mn mx f fs))) ! i
        \<noteq> x_values (fflies (first_memory A E n mn mx f fs)) ! i \<or>
     y_values (fflies (move_loops A g alpha gamma (first_memory A E n mn mx f fs))) ! i
        \<noteq> y_values (fflies (first_memory A E n mn mx f fs)) ! i
     \<longrightarrow> d_lt (light_values (fflies (first_memory A E n mn mx f fs)) ! i) (Fin 0)) \<and>
    (pop_ok (fflies (first_memory A E n mn mx f fs)) \<and> i < n \<and>
     \<not> d_lt (light_values (fflies (first_memory A E n mn mx f fs)) ! i) (Fin 0)
     \<longrightarrow> x_values (fflies (move_fflies A g alpha gamma mn mx (first_memory A E n mn mx f fs))) ! i
           = clamp1 (pt_x mn) (pt_x mx) (x_values (fflies (first_memory A E n mn mx f fs)) ! i) \<and>
         y_values (fflies (move_fflies A g alpha gamma mn mx (first_memory A E n mn mx f fs))) ! i
           = clamp1 (pt_y mn) (pt_y mx) (y_values (fflies (first_memory A E n mn mx f fs)) ! i) \<and>
         (d_le (pt_x mn) (x_values (fflies (first_memory A E n mn mx f fs)) ! i) \<and>
          d_le (x_values (fflies (first_memory A E n mn mx f fs)) ! i) (pt_x mx) \<and>
          d_le (pt_y mn) (y_values (fflies (first_memory A E n mn mx f fs)) ! i) \<and>
          d_le (y_values (fflies (first_memory A E n mn mx f fs)) ! i) (pt_y mx)
          \<longrightarrow> x_values (fflies (move_fflies A g alpha gamma mn mx
                  (first_memory A E n mn mx f fs))) ! i
                = x_values (fflies (first_memory A E n mn mx f fs)) ! i \<and>
              y_values (fflies (move_fflies A g alpha gamma mn mx
                  (first_memory A E n mn mx f fs))) ! i
                = y_values (fflies (first_memory A E n mn mx f fs)) ! i))"
proof -
  let ?w = "first_memory A E n mn mx f fs"
  have zero: "light_values (fflies_old ?w) = replicate n (Fin 0)"
    unfolding first_memory_def by (rule snapshot_light_zero)
  have size: "nfflies (fflies ?w) = n"
    using assms by (simp add: first_memory_def ffa_copy_eval_def Let_def)
  have dark: "\<forall>j < nfflies (fflies ?w).
      \<not> d_lt (light_values (fflies ?w) ! i) (light_values (fflies_old ?w) ! j)"
    if "\<not> d_lt (light_values (fflies ?w) ! i) (Fin 0)"
    using that zero size by simp
  have loops: "x_values (fflies (move_loops A g alpha gamma ?w)) ! i = x_values (fflies ?w) ! i \<and>
        y_values (fflies (move_loops A g alpha gamma ?w)) ! i = y_values (fflies ?w) ! i"
    if "\<not> d_lt (light_values (fflies ?w) ! i) (Fin 0)"
    using dark [OF that] by (rule move_loops_unmoved)
  have call: "x_values (fflies (move_fflies A g alpha gamma mn mx ?w)) ! i
          = clamp1 (pt_x mn) (pt_x mx) (x_values (fflies ?w) ! i) \<and>
        y_values (fflies (move_fflies A g alpha gamma mn mx ?w)) ! i
          = clamp1 (pt_y mn) (pt_y mx) (y_values (fflies ?w) ! i)"
    if "\<not> d_lt (light_values (fflies ?w) ! i) (Fin 0)" "pop_ok (fflies ?w)" "i < n"
    using dark [OF that(1)] that(2)
    by (rule move_fflies_clamps) (use that(3) size in simp)
  from zero loops call show ?thesis
    by (simp add: clamp1_inside) blast
qed

section \<open>Runs of \<open>ffa\<close>\<close>

lemma ffa_init_files: "files (ffa_init A E n mn mx fs) = fs"
  by (simp add: ffa_init_def Let_def split_beta)

lemma ffa_init_sizes:
  "nfflies (fflies (ffa_init A E n mn mx fs)) = n \<and>
   nfflies (fflies_old (ffa_init A E n mn mx fs)) = n"
  by (simp add: ffa_init_def Let_def split_beta init_fflies_shape)



text \<open>
  The memory after the loop of \<open>ffa\<close>, when \<open>start.dat\<close> could be written and the loop
  exits.
\<close>

definition ffa_loop ::
  "arith \<Rightarrow> env \<Rightarrow> nat \<Rightarrow> nat \<Rightarrow> point \<Rightarrow> point \<Rightarrow> obj_func \<Rightarrow> (string \<Rightarrow> string option)
     \<Rightarrow> ffa_state"
where
  "ffa_loop A E n T mn mx f fs =
     fold (\<lambda>i. ffa_iter A E n mn mx f (d_lit A 0.2) (Fin 1.0)) [0..<T]
       ((ffa_init A E n mn mx fs)
          \<lparr>files := fs(''start.dat'' \<mapsto> points_text E (fflies (ffa_init A E n mn mx fs)))\<rparr>)"

lemma ffa_unfold:
  "ffa A E n T mn mx f fs =
     (if \<not> fopen_ok E ''start.dat'' then Inl FcloseNull
      else if \<not> T < 2 ^ 32 then Inl NeverReturns
      else if fopen_ok E ''end.dat''
      then Inr ((ffa_loop A E n T mn mx f fs)
             \<lparr>files := (files (ffa_loop A E n T mn mx f fs))
                (''end.dat'' \<mapsto> points_text E (fflies (ffa_loop A E n T mn mx f fs)))\<rparr>)
      else Inl FcloseNull)"
proof (cases "T < 2 ^ 32")
  case True
  then show ?thesis
    by (simp add: ffa_def ffa_loop_def output_points_def Let_def ffa_init_files ffa_for_exits)
next
  case False
  then have "2 ^ 32 \<le> T"
    by simp
  then show ?thesis
    by (simp add: ffa_def output_points_def Let_def ffa_for_hangs)
qed






section \<open>A run of one iteration\<close>

text \<open>
  The run of the concrete setting with two individuals and one iteration. Creation makes
  eight calls of \<open>my_rand\<close> and puts both individuals at \<open>(0.5, 0.5)\<close>. The memory when
  \<open>move_fflies\<close> is called:
\<close>

definition ex_evaluated :: "(string \<Rightarrow> string option) \<Rightarrow> ffa_state" where
  "ex_evaluated fs =
     \<lparr>fflies = \<lparr>nfflies = 2, x_values = [Fin (1/2), Fin (1/2)],
                 y_values = [Fin (1/2), Fin (1/2)],
                 light_values = [Fin (-(1/2)), Fin (-(1/2))]\<rparr>,
      fflies_old = \<lparr>nfflies = 2, x_values = [Fin (1/2), Fin (1/2)],
                     y_values = [Fin (1/2), Fin (1/2)],
                     light_values = [Fin 0, Fin 0]\<rparr>,
      rand_calls = 8, files = fs\<rparr>"

text \<open>The memory after the two loops of that call: both individuals have moved.\<close>

definition ex_moved :: "(string \<Rightarrow> string option) \<Rightarrow> ffa_state" where
  "ex_moved fs =
     \<lparr>fflies = \<lparr>nfflies = 2, x_values = [Fin (3/5), Fin (3/5)],
                 y_values = [Fin (3/5), Fin (3/5)],
                 light_values = [Fin (-(1/2)), Fin (-(1/2))]\<rparr>,
      fflies_old = \<lparr>nfflies = 2, x_values = [Fin (1/2), Fin (1/2)],
                     y_values = [Fin (1/2), Fin (1/2)],
                     light_values = [Fin 0, Fin 0]\<rparr>,
      rand_calls = 12, files = fs\<rparr>"

text \<open>
  A second environment, whose random stream differs from that of \<open>ex_env\<close> from the
  twelfth call on.
\<close>

definition ex_env2 :: env where
  "ex_env2 = \<lparr>rand_seq = (\<lambda>k. if k < 8 then Fin (1/2) else if k < 12 then Fin 1 else Fin 0),
     fmt_2lf = (\<lambda>v. ''0.00''), fopen_ok = (\<lambda>name. True)\<rparr>"

definition ex_text :: string where
  "ex_text = ''0.00 0.00'' @ [CHR 0x0A] @ ''0.00 0.00'' @ [CHR 0x0A]"

lemma ex_init:
  "ffa_init ex_arith ex_env 2 ex_min ex_max fs =
     \<lparr>fflies = \<lparr>nfflies = 2, x_values = [Fin (1/2), Fin (1/2)],
                 y_values = [Fin (1/2), Fin (1/2)], light_values = [Fin 0, Fin 0]\<rparr>,
      fflies_old = \<lparr>nfflies = 2, x_values = [Fin (1/2), Fin (1/2)],
                     y_values = [Fin (1/2), Fin (1/2)], light_values = [Fin 0, Fin 0]\<rparr>,
      rand_calls = 8, files = fs\<rparr>"
  by (simp add: ffa_init_def init_fflies_def init_body_def my_rand_def ex_env_fields
      ex_arith_fields ex_min_def ex_max_def Let_def upt_0_2 numeral_2_eq_2)

lemma ex_copy_eval:
  "first_memory ex_arith ex_env 2 ex_min ex_max ex_obj fs = ex_evaluated fs"
  by (simp add: first_memory_def ex_init ffa_copy_eval_def memcpy_def ex_obj_def Let_def
      upt_0_2 ex_evaluated_def ex_arith_fields)

lemma ex_move_loops:
  "move_loops ex_arith (rand_seq ex_env) (Fin (1/5)) (Fin 1) (ex_evaluated fs) = ex_moved fs"
  by (simp add: ex_evaluated_def ex_moved_def move_loops_def move_body_def Let_def my_rand_def
      beta0_def upt_0_2 ex_env_fields ex_arith_fields)

lemma ex_move_fflies:
  "move_fflies ex_arith (rand_seq ex_env) (Fin (1/5)) (Fin 1) ex_min ex_max (ex_evaluated fs)
     = ex_moved fs"
proof -
  have "move_fflies ex_arith (rand_seq ex_env) (Fin (1/5)) (Fin 1) ex_min ex_max
        (ex_evaluated fs) =
      (ex_moved fs)\<lparr>fflies := fix_positions (fflies (ex_moved fs)) ex_min ex_max\<rparr>"
    by (simp add: move_fflies_def Let_def ex_move_loops)
  also have "\<dots> = ex_moved fs"
    by (simp add: ex_moved_def fix_positions_def fix_body_def upt_0_2 ex_min_def ex_max_def)
  finally show ?thesis .
qed

lemma ex_loop:
  "ffa_loop ex_arith ex_env 2 1 ex_min ex_max ex_obj fs
     = ex_moved (fs(''start.dat'' \<mapsto> ex_text))"
proof -
  have "ffa_loop ex_arith ex_env 2 1 ex_min ex_max ex_obj fs =
      move_fflies ex_arith (rand_seq ex_env) (Fin (1/5)) (Fin 1) ex_min ex_max
        (ex_evaluated (fs(''start.dat'' \<mapsto> ex_text)))"
    by (simp add: ffa_loop_def ex_init ffa_iter_def ffa_copy_eval_def memcpy_def ex_obj_def
        Let_def upt_0_2 points_text_def output_line_def ex_env_fields ex_arith_fields
        ex_evaluated_def ex_text_def)
  then show ?thesis
    by (simp add: ex_move_fflies)
qed

lemma ex_run:
  "ffa ex_arith ex_env 2 1 ex_min ex_max ex_obj Map.empty
      = Inr (ex_moved [''start.dat'' \<mapsto> ex_text, ''end.dat'' \<mapsto> ex_text])"
  unfolding ffa_unfold ex_loop
  by (simp add: ex_moved_def points_text_def output_line_def upt_0_2 ex_env_fields ex_text_def)

theorem first_iteration_moves_negative_only_witness:
  "light_values (fflies_old (first_memory ex_arith ex_env 2 ex_min ex_max ex_obj Map.empty))
     = replicate 2 (Fin 0) \<and>
   x_values (fflies (first_memory ex_arith ex_env 2 ex_min ex_max ex_obj Map.empty)) ! 0
     = Fin (1/2) \<and>
   x_values (fflies (move_loops ex_arith (rand_seq ex_env) (Fin (1/5)) (Fin 1)
       (first_memory ex_arith ex_env 2 ex_min ex_max ex_obj Map.empty))) ! 0 = Fin (3/5) \<and>
   d_lt (light_values (fflies
       (first_memory ex_arith ex_env 2 ex_min ex_max ex_obj Map.empty)) ! 0) (Fin 0) \<and>
   \<not> d_lt (light_values (fflies
       (first_memory ex_arith ex_env_half 1 ex_max ex_min ex_bright Map.empty)) ! 0) (Fin 0) \<and>
   x_values (fflies (move_fflies ex_arith (rand_seq ex_env_half) (Fin (1/5)) (Fin 1)
       ex_max ex_min
       (first_memory ex_arith ex_env_half 1 ex_max ex_min ex_bright Map.empty))) ! 0
     = clamp1 (Fin 1) (Fin 0) (Fin (1/2)) \<and>
   clamp1 (Fin 1) (Fin 0) (Fin (1/2)) = Fin 0"
proof -
  let ?w = "first_memory ex_arith ex_env 2 ex_min ex_max ex_obj Map.empty"
  let ?v = "first_memory ex_arith ex_env_half 1 ex_max ex_min ex_bright Map.empty"
  have size: "nfflies (ex_obj (fflies (ffa_init ex_arith ex_env 2 ex_min ex_max Map.empty))) = 2"
    by (simp add: ex_obj_def ffa_init_sizes)
  have loops: "x_values (fflies (move_loops ex_arith (rand_seq ex_env) (Fin (1/5)) (Fin 1) ?w)) ! 0
      = Fin (3/5)"
    and before: "x_values (fflies ?w) ! 0 = Fin (1/2)"
    unfolding ex_copy_eval ex_move_loops
    by (simp_all add: ex_evaluated_def ex_moved_def)
  have size': "nfflies (ex_bright
      (fflies (ffa_init ex_arith ex_env_half 1 ex_max ex_min Map.empty))) = 1"
    by (simp add: ex_bright_def ffa_init_sizes)
  have bright: "pop_ok (fflies ?v)" "\<not> d_lt (light_values (fflies ?v) ! 0) (Fin 0)"
    "x_values (fflies ?v) ! 0 = Fin (1/2)"
    unfolding ex_bright_memory by (simp_all add: pop_ok_def)
  have 1: "d_lt (light_values (fflies ?w) ! 0) (Fin 0)"
    using first_iteration_moves_negative_only [where f = ex_obj and E = ex_env and n = 2
        and mn = ex_min and mx = ex_max and fs = Map.empty and g = "rand_seq ex_env"
        and A = ex_arith and alpha = "Fin (1/5)" and gamma = "Fin 1" and i = 0]
      size loops before
    by simp
  have 2: "x_values (fflies (move_fflies ex_arith (rand_seq ex_env_half) (Fin (1/5)) (Fin 1)
       ex_max ex_min ?v)) ! 0 = clamp1 (Fin 1) (Fin 0) (Fin (1/2))"
    using first_iteration_moves_negative_only [where f = ex_bright and E = ex_env_half
        and n = 1 and mn = ex_max and mx = ex_min and fs = Map.empty
        and g = "rand_seq ex_env_half" and A = ex_arith and alpha = "Fin (1/5)"
        and gamma = "Fin 1" and i = 0]
      size' bright
    by (simp add: ex_min_def ex_max_def)
  have 3: "light_values (fflies_old ?w) = replicate 2 (Fin 0)"
    unfolding ex_copy_eval by (simp add: ex_evaluated_def numeral_2_eq_2)
  show ?thesis
    using 1 2 3 before loops bright(2) by (simp add: clamp1_def)
qed


section \<open>Dependence on the random stream\<close>


text \<open>
  A step \<open>F\<close> that draws from the stream \<open>g\<close> reads it only at the positions between the
  call count before and the call count after: the count never decreases, and a stream
  that agrees with \<open>g\<close> on those positions gives the same result.
\<close>

definition reads_stream :: "('s \<Rightarrow> nat) \<Rightarrow> (rand_stream \<Rightarrow> 's \<Rightarrow> 's) \<Rightarrow> bool" where
  "reads_stream c F \<longleftrightarrow>
     (\<forall>g s. c s \<le> c (F g s)) \<and>
     (\<forall>g g' s. (\<forall>k. c s \<le> k \<and> k < c (F g s) \<longrightarrow> g' k = g k) \<longrightarrow> F g' s = F g s)"

lemma reads_streamI:
  assumes "\<And>g s. c s \<le> c (F g s)"
    and "\<And>g g' s. (\<And>k. c s \<le> k \<Longrightarrow> k < c (F g s) \<Longrightarrow> g' k = g k) \<Longrightarrow> F g' s = F g s"
  shows "reads_stream c F"
  unfolding reads_stream_def using assms by blast

lemma reads_stream_mono: "reads_stream c F \<Longrightarrow> c s \<le> c (F g s)"
  by (simp add: reads_stream_def)

lemma reads_stream_agree:
  "reads_stream c F \<Longrightarrow> (\<And>k. c s \<le> k \<Longrightarrow> k < c (F g s) \<Longrightarrow> g' k = g k) \<Longrightarrow> F g' s = F g s"
  unfolding reads_stream_def by blast

lemma reads_stream_comp:
  assumes F: "reads_stream c F" and G: "reads_stream c G"
  shows "reads_stream c (\<lambda>g s. G g (F g s))"
proof (rule reads_streamI)
  fix g s
  show "c s \<le> c (G g (F g s))"
    using reads_stream_mono [OF F, of s g] reads_stream_mono [OF G, of "F g s" g] by simp
next
  fix g g' s
  assume agree: "\<And>k. c s \<le> k \<Longrightarrow> k < c (G g (F g s)) \<Longrightarrow> g' k = g k"
  have 1: "c s \<le> c (F g s)"
    by (rule reads_stream_mono [OF F])
  have 2: "c (F g s) \<le> c (G g (F g s))"
    by (rule reads_stream_mono [OF G])
  have "F g' s = F g s"
    by (rule reads_stream_agree [OF F]) (use agree 2 in simp)
  moreover have "G g' (F g s) = G g (F g s)"
    by (rule reads_stream_agree [OF G]) (use agree 1 in simp)
  ultimately show "G g' (F g' s) = G g (F g s)"
    by simp
qed

lemma reads_stream_const:
  assumes "\<And>s. c s \<le> c (h s)"
  shows "reads_stream c (\<lambda>g. h)"
  by (rule reads_streamI) (simp_all add: assms)

lemma reads_stream_fold:
  assumes "\<And>x. reads_stream c (F x)"
  shows "reads_stream c (\<lambda>g. fold (\<lambda>x. F x g) xs)"
proof (induction xs)
  case Nil
  show ?case
    by (rule reads_streamI) simp_all
next
  case (Cons x xs)
  have "reads_stream c (\<lambda>g s. fold (\<lambda>x. F x g) xs (F x g s))"
    by (rule reads_stream_comp [OF assms Cons.IH])
  then show ?case
    by simp
qed

lemma init_body_reads: "reads_stream snd (\<lambda>g. init_body A g xr yr mn i)"
  by (rule reads_streamI) (auto simp: init_body_def my_rand_def Let_def)

lemma move_body_reads: "reads_stream rand_calls (\<lambda>g. move_body A g alpha gamma i j)"
  by (rule reads_streamI) (auto simp: move_body_def my_rand_def Let_def)

lemma move_nest_reads:
  "reads_stream rand_calls
     (\<lambda>g. fold (\<lambda>i. fold (move_body A g alpha gamma i) js) is)"
proof -
  have inner: "reads_stream rand_calls (\<lambda>g. fold (\<lambda>j. move_body A g alpha gamma i j) js)" for i
    by (rule reads_stream_fold [where F = "\<lambda>j g. move_body A g alpha gamma i j"])
      (rule move_body_reads)
  show ?thesis
    by (rule reads_stream_fold [where F = "\<lambda>i g. fold (\<lambda>j. move_body A g alpha gamma i j) js"])
      (rule inner)
qed

lemma move_loops_reads: "reads_stream rand_calls (\<lambda>g. move_loops A g alpha gamma)"
proof (rule reads_streamI)
  fix g s
  show "rand_calls s \<le> rand_calls (move_loops A g alpha gamma s)"
    unfolding move_loops_def Let_def by (rule reads_stream_mono [OF move_nest_reads])
next
  fix g g' s
  assume "\<And>k. rand_calls s \<le> k \<Longrightarrow> k < rand_calls (move_loops A g alpha gamma s) \<Longrightarrow> g' k = g k"
  then show "move_loops A g' alpha gamma s = move_loops A g alpha gamma s"
    unfolding move_loops_def Let_def by (rule reads_stream_agree [OF move_nest_reads])
qed

lemma ffa_step_reads:
  "reads_stream rand_calls
     (\<lambda>g w. move_fflies A g alpha gamma mn mx (ffa_copy_eval n f w))"
proof -
  have a: "reads_stream rand_calls (\<lambda>g. ffa_copy_eval n f)"
    by (rule reads_stream_const) (simp add: ffa_copy_eval_def Let_def)
  have b: "reads_stream rand_calls
      (\<lambda>g. (\<lambda>w. w\<lparr>fflies := fix_positions (fflies w) mn mx\<rparr>))"
    by (rule reads_stream_const) simp
  have "reads_stream rand_calls (\<lambda>g w. move_loops A g alpha gamma (ffa_copy_eval n f w))"
    by (rule reads_stream_comp [OF a move_loops_reads])
  then have "reads_stream rand_calls
      (\<lambda>g w. (\<lambda>w. w\<lparr>fflies := fix_positions (fflies w) mn mx\<rparr>)
                (move_loops A g alpha gamma (ffa_copy_eval n f w)))"
    by (rule reads_stream_comp [OF _ b])
  then show ?thesis
    by (simp add: move_fflies_def Let_def)
qed

lemma ffa_iters_reads:
  "reads_stream rand_calls
     (\<lambda>g. fold (\<lambda>i w. move_fflies A g alpha gamma mn mx (ffa_copy_eval n f w)) is)"
  by (rule reads_stream_fold
      [where F = "\<lambda>i g w. move_fflies A g alpha gamma mn mx (ffa_copy_eval n f w)"])
    (rule ffa_step_reads)

lemma init_loop_reads:
  "reads_stream snd (\<lambda>g. fold (init_body A g xr yr mn) is)"
  by (rule reads_stream_fold [where F = "\<lambda>i g. init_body A g xr yr mn i"])
    (rule init_body_reads)

lemma init_fflies_mono: "k \<le> snd (init_fflies A g n mn mx k)"
  unfolding init_fflies_def Let_def
  using reads_stream_mono [OF init_loop_reads, of "(p, k)" for p] by simp

lemma init_fflies_agree:
  assumes "\<And>j. k \<le> j \<Longrightarrow> j < snd (init_fflies A g n mn mx k) \<Longrightarrow> g' j = g j"
  shows "init_fflies A g' n mn mx k = init_fflies A g n mn mx k"
  unfolding init_fflies_def Let_def
  by (rule reads_stream_agree [OF init_loop_reads])
    (use assms in \<open>simp add: init_fflies_def Let_def\<close>)

lemma ffa_init_calls:
  "rand_calls (ffa_init A E n mn mx fs) =
     snd (init_fflies A (rand_seq E) n mn mx (snd (init_fflies A (rand_seq E) n mn mx 0)))"
  by (simp add: ffa_init_def Let_def split_beta)

lemma ffa_init_agree:
  assumes "\<And>k. k < rand_calls (ffa_init A E n mn mx fs) \<Longrightarrow> rand_seq E' k = rand_seq E k"
  shows "ffa_init A E' n mn mx fs = ffa_init A E n mn mx fs"
proof -
  let ?k1 = "snd (init_fflies A (rand_seq E) n mn mx 0)"
  have le: "?k1 \<le> rand_calls (ffa_init A E n mn mx fs)"
    unfolding ffa_init_calls by (rule init_fflies_mono)
  have 1: "init_fflies A (rand_seq E') n mn mx 0 = init_fflies A (rand_seq E) n mn mx 0"
    by (rule init_fflies_agree) (use assms le in simp)
  have 2: "init_fflies A (rand_seq E') n mn mx ?k1 = init_fflies A (rand_seq E) n mn mx ?k1"
    by (rule init_fflies_agree) (use assms in \<open>simp add: ffa_init_calls\<close>)
  show ?thesis
    by (simp add: ffa_init_def Let_def split_beta 1 2)
qed

lemma points_text_env: "fmt_2lf E' = fmt_2lf E \<Longrightarrow> points_text E' pop = points_text E pop"
  by (simp add: points_text_def output_line_def)

lemma ffa_loop_iters:
  "ffa_loop A E n T mn mx f fs =
     fold (\<lambda>i w. move_fflies A (rand_seq E) (d_lit A 0.2) (Fin 1.0) mn mx (ffa_copy_eval n f w)) [0..<T]
       ((ffa_init A E n mn mx fs)
          \<lparr>files := fs(''start.dat'' \<mapsto> points_text E (fflies (ffa_init A E n mn mx fs)))\<rparr>)"
  by (simp add: ffa_loop_def ffa_iter_def [abs_def])

lemma ffa_loop_calls_mono:
  "rand_calls (ffa_init A E n mn mx fs) \<le> rand_calls (ffa_loop A E n T mn mx f fs)"
  unfolding ffa_loop_iters
  using reads_stream_mono [OF ffa_iters_reads, of "(ffa_init A E n mn mx fs)
          \<lparr>files := fs(''start.dat'' \<mapsto> points_text E (fflies (ffa_init A E n mn mx fs)))\<rparr>"]
  by simp

lemma ffa_loop_agree:
  assumes fmt: "fmt_2lf E' = fmt_2lf E"
    and agree: "\<And>k. k < rand_calls (ffa_loop A E n T mn mx f fs) \<Longrightarrow> rand_seq E' k = rand_seq E k"
  shows "ffa_loop A E' n T mn mx f fs = ffa_loop A E n T mn mx f fs"
proof -
  have init: "ffa_init A E' n mn mx fs = ffa_init A E n mn mx fs"
    by (rule ffa_init_agree) (use agree ffa_loop_calls_mono [of A E n mn mx fs T f] in simp)
  let ?w = "(ffa_init A E n mn mx fs)
      \<lparr>files := fs(''start.dat'' \<mapsto> points_text E (fflies (ffa_init A E n mn mx fs)))\<rparr>"
  have "fold (\<lambda>i w. move_fflies A (rand_seq E') (d_lit A 0.2) (Fin 1.0) mn mx (ffa_copy_eval n f w)) [0..<T] ?w =
        fold (\<lambda>i w. move_fflies A (rand_seq E) (d_lit A 0.2) (Fin 1.0) mn mx (ffa_copy_eval n f w)) [0..<T] ?w"
    by (rule reads_stream_agree [OF ffa_iters_reads])
      (use agree in \<open>simp add: ffa_loop_iters\<close>)
  then show ?thesis
    by (simp add: ffa_loop_iters init points_text_env [OF fmt])
qed

text \<open>
  C7. A run is determined by its configuration and by the values its calls of \<open>my_rand\<close>
  return: when a run ends in the memory \<open>w\<close>, a run with the same configuration, the same
  renderer and the same openable files, whose random stream returns the same values at
  the \<open>rand_calls w\<close> calls the first run made, ends in the same memory, so with
  identical \<open>start.dat\<close> and \<open>end.dat\<close>.
\<close>

theorem ffa_deterministic:
  assumes "fmt_2lf E' = fmt_2lf E" and "fopen_ok E' = fopen_ok E"
    and "ffa A E n T mn mx f fs = Inr w"
    and "\<forall>k < rand_calls w. rand_seq E' k = rand_seq E k"
  shows "ffa A E' n T mn mx f fs = Inr w \<and>
         files (projr (ffa A E' n T mn mx f fs)) ''start.dat''
           = files (projr (ffa A E n T mn mx f fs)) ''start.dat'' \<and>
         files (projr (ffa A E' n T mn mx f fs)) ''end.dat''
           = files (projr (ffa A E n T mn mx f fs)) ''end.dat''"
proof -
  have ok: "fopen_ok E ''start.dat'' \<and> fopen_ok E ''end.dat'' \<and> T < 2 ^ 32"
    using assms(3) by (simp add: ffa_unfold split: if_splits)
  then have w: "w = (ffa_loop A E n T mn mx f fs)
      \<lparr>files := (files (ffa_loop A E n T mn mx f fs))
         (''end.dat'' \<mapsto> points_text E (fflies (ffa_loop A E n T mn mx f fs)))\<rparr>"
    using assms(3) by (simp add: ffa_unfold)
  then have "rand_calls w = rand_calls (ffa_loop A E n T mn mx f fs)"
    by simp
  then have "ffa_loop A E' n T mn mx f fs = ffa_loop A E n T mn mx f fs"
    using assms(1,4) by (intro ffa_loop_agree) simp_all
  then have "ffa A E' n T mn mx f fs = Inr w"
    using ok w assms(2) by (simp add: ffa_unfold points_text_env [OF assms(1)])
  then show ?thesis
    using assms(3) by simp
qed

theorem ffa_deterministic_witness:
  "ffa ex_arith ex_env2 2 1 ex_min ex_max ex_obj Map.empty
     = Inr (ex_moved [''start.dat'' \<mapsto> ex_text, ''end.dat'' \<mapsto> ex_text]) \<and>
   files (projr (ffa ex_arith ex_env2 2 1 ex_min ex_max ex_obj Map.empty)) ''start.dat''
     = files (projr (ffa ex_arith ex_env 2 1 ex_min ex_max ex_obj Map.empty)) ''start.dat'' \<and>
   files (projr (ffa ex_arith ex_env2 2 1 ex_min ex_max ex_obj Map.empty)) ''end.dat''
     = files (projr (ffa ex_arith ex_env 2 1 ex_min ex_max ex_obj Map.empty)) ''end.dat''"
proof -
  have 1: "fmt_2lf ex_env2 = fmt_2lf ex_env" and 2: "fopen_ok ex_env2 = fopen_ok ex_env"
    by (simp_all add: ex_env_def ex_env2_def)
  have 4: "\<forall>k < rand_calls (ex_moved [''start.dat'' \<mapsto> ex_text, ''end.dat'' \<mapsto> ex_text]).
      rand_seq ex_env2 k = rand_seq ex_env k"
    by (simp add: ex_moved_def ex_env_def ex_env2_def)
  show ?thesis
    by (rule ffa_deterministic [OF 1 2 ex_run 4])
qed

section \<open>Ranking: individuals as rows\<close>

text \<open>
  The individuals of a population as tuples \<open>(x, y, intensity)\<close>, in index order, and
  the individual at an integer index.
\<close>

definition rows :: "ffly_population \<Rightarrow> (double \<times> double \<times> double) list" where
  "rows pop = zip (x_values pop) (zip (y_values pop) (light_values pop))"

definition row_at :: "ffly_population \<Rightarrow> int \<Rightarrow> double \<times> double \<times> double" where
  "row_at pop m = (x_values pop ! nat m, y_values pop ! nat m, light_values pop ! nat m)"

definition light_at :: "ffly_population \<Rightarrow> int \<Rightarrow> double" where
  "light_at pop m = light_values pop ! nat m"

lemma light_at_row: "light_at pop m = snd (snd (row_at pop m))"
  by (simp add: light_at_def row_at_def)

lemma length_rows: "pop_ok pop \<Longrightarrow> length (rows pop) = nfflies pop"
  by (simp add: rows_def pop_ok_def)

lemma rows_nth:
  "pop_ok pop \<Longrightarrow> 0 \<le> m \<Longrightarrow> m < int (nfflies pop) \<Longrightarrow> rows pop ! nat m = row_at pop m"
  by (simp add: rows_def row_at_def pop_ok_def)

lemma light_values_rows: "pop_ok pop \<Longrightarrow> light_values pop = map (snd \<circ> snd) (rows pop)"
  by (rule nth_equalityI) (simp_all add: rows_def pop_ok_def)

lemma light_set_rows:
  assumes "pop_ok p" and "pop_ok q" and "mset (rows q) = mset (rows p)"
  shows "set (light_values q) = set (light_values p)"
proof -
  have "set (rows q) = set (rows p)"
    using assms(3) by (rule mset_eq_setD)
  then show ?thesis
    using assms(1,2) by (simp add: light_values_rows)
qed

lemma light_at_member:
  "pop_ok p \<Longrightarrow> 0 \<le> m \<Longrightarrow> m < int (nfflies p) \<Longrightarrow> light_at p m \<in> set (light_values p)"
  by (simp add: light_at_def pop_ok_def)

subsection \<open>Exchanging two individuals\<close>

lemma swap_eq: "swap a i j = a[i := a ! j, j := a ! i]"
  by (simp add: swap_def Let_def)

lemma length_swap: "length (swap a i j) = length a"
  by (simp add: swap_eq)

lemma swap3_nfflies: "nfflies (swap3 pop i j) = nfflies pop"
  by (simp add: swap3_def Let_def)

lemma swap3_ok: "pop_ok (swap3 pop i j) = pop_ok pop"
  by (simp add: swap3_def Let_def pop_ok_def length_swap)

lemma swap3_rows:
  assumes "pop_ok pop" and "i < nfflies pop" and "j < nfflies pop"
  shows "rows (swap3 pop i j) = (rows pop)[i := rows pop ! j, j := rows pop ! i]"
  using assms
  by (simp add: rows_def swap3_def Let_def swap_eq pop_ok_def update_zip)

lemma swap3_mset:
  assumes "pop_ok pop" and "i < nfflies pop" and "j < nfflies pop"
  shows "mset (rows (swap3 pop i j)) = mset (rows pop)"
  using assms by (simp add: swap3_rows mset_swap length_rows)

lemma swap3_row_at:
  assumes "pop_ok pop" and "0 \<le> a" and "a < int (nfflies pop)"
    and "0 \<le> b" and "b < int (nfflies pop)" and "0 \<le> m"
  shows "row_at (swap3 pop (nat a) (nat b)) m =
           (if m = b then row_at pop a else if m = a then row_at pop b else row_at pop m)"
  using assms
  by (auto simp: row_at_def swap3_def Let_def swap_eq pop_ok_def nth_list_update)

lemma swap3_light_at:
  assumes "pop_ok pop" and "0 \<le> a" and "a < int (nfflies pop)"
    and "0 \<le> b" and "b < int (nfflies pop)" and "0 \<le> m"
  shows "light_at (swap3 pop (nat a) (nat b)) m =
           (if m = b then light_at pop a else if m = a then light_at pop b else light_at pop m)"
  by (simp add: light_at_row swap3_row_at [OF assms])

lemma swap3_mset_int:
  assumes "pop_ok pop" and "0 \<le> a" and "a < int (nfflies pop)"
    and "0 \<le> b" and "b < int (nfflies pop)"
  shows "mset (rows (swap3 pop (nat a) (nat b))) = mset (rows pop)"
  using assms by (intro swap3_mset) simp_all

text \<open>Inside the arrays of a population every access is allowed.\<close>

lemma cells_ok_inside:
  "pop_ok pop \<Longrightarrow> 0 \<le> k \<Longrightarrow> k < int (nfflies pop) \<Longrightarrow> k < 2 ^ 31 \<Longrightarrow> cells_ok pop k"
  by (simp add: cells_ok_def cell_ok_def pop_ok_def)

lemma swap_cells_inside:
  assumes "pop_ok pop" and "0 \<le> a" and "a < int (nfflies pop)" and "a < 2 ^ 31"
    and "0 \<le> b" and "b < int (nfflies pop)" and "b < 2 ^ 31"
  shows "swap_cells pop a b = Inr (swap3 pop (nat a) (nat b))"
  using assms by (simp add: swap_cells_def cells_ok_inside)

subsection \<open>The loop of \<open>partition\<close>\<close>

lemma fold_upto_invariant:
  assumes "I i s" and "i \<le> j + 1"
    and "\<And>k s. i \<le> k \<Longrightarrow> k \<le> j \<Longrightarrow> I k s \<Longrightarrow> I (k + 1) (f k s)"
  shows "I (j + 1) (fold f [i..j] s)"
  using assms
proof (induction "nat (j + 1 - i)" arbitrary: i s)
  case 0
  then have "i = j + 1"
    by simp
  with "0.prems"(1) show ?case
    by simp
next
  case (Suc n)
  then have le: "i \<le> j"
    by simp
  have "I (j + 1) (fold f [i + 1..j] (f i s))"
  proof (rule Suc.hyps(1))
    show "n = nat (j + 1 - (i + 1))"
      using Suc.hyps(2) by simp
    show "I (i + 1) (f i s)"
      using Suc.prems(1) le by (intro Suc.prems(3)) simp_all
    show "i + 1 \<le> j + 1"
      using le by simp
    show "I (k + 1) (f k s)" if "i + 1 \<le> k" "k \<le> j" "I k s" for k s
      using that by (intro Suc.prems(3)) simp_all
  qed
  then show ?case
    using le by (simp add: upto_rec1)
qed

text \<open>
  The invariant of the loop of \<open>partition\<close> before the iteration with index \<open>k\<close>: no
  access has left the arrays; the individuals are those of \<open>p0\<close>, untouched outside
  \<open>left..right\<close>; for those from \<open>left\<close> up to \<open>idx\<close> the test \<open>light \<le> intensity\<close> of
  line 228 holds, for those from \<open>idx\<close> up to \<open>k\<close> it fails; the pivot is at \<open>right\<close>.
\<close>

definition part_inv ::
  "ffly_population \<Rightarrow> int \<Rightarrow> int \<Rightarrow> double \<Rightarrow> int \<Rightarrow> error + ffly_population \<times> 64 word \<Rightarrow> bool"
where
  "part_inv p0 left right v k s =
     (case s of
        Inl e \<Rightarrow> False
      | Inr (p, idx) \<Rightarrow>
          pop_ok p \<and> nfflies p = nfflies p0 \<and> mset (rows p) = mset (rows p0) \<and>
          (\<forall>m. 0 \<le> m \<and> (m < left \<or> right < m) \<longrightarrow> row_at p m = row_at p0 m) \<and>
          left \<le> uint idx \<and> uint idx \<le> k \<and>
          (\<forall>m. left \<le> m \<and> m < uint idx \<longrightarrow> d_le (light_at p m) v) \<and>
          (\<forall>m. uint idx \<le> m \<and> m < k \<longrightarrow> \<not> d_le (light_at p m) v) \<and>
          light_at p right = v)"

lemma part_inv_step:
  assumes "0 \<le> left" and "right < int (nfflies p0)" and "right < 2 ^ 31"
    and "left \<le> k" and "k \<le> right - 1"
    and "part_inv p0 left right v k s"
  shows "part_inv p0 left right v (k + 1) (partition_body v k s)"
proof -
  obtain p idx where s: "s = Inr (p, idx)"
    using assms(6) by (cases s) (auto simp: part_inv_def)
  have inv: "pop_ok p" "nfflies p = nfflies p0" "mset (rows p) = mset (rows p0)"
    "\<And>m. 0 \<le> m \<Longrightarrow> m < left \<or> right < m \<Longrightarrow> row_at p m = row_at p0 m"
    "left \<le> uint idx" "uint idx \<le> k"
    "\<And>m. left \<le> m \<Longrightarrow> m < uint idx \<Longrightarrow> d_le (light_at p m) v"
    "\<And>m. uint idx \<le> m \<Longrightarrow> m < k \<Longrightarrow> \<not> d_le (light_at p m) v"
    "light_at p right = v"
    using assms(6) by (simp_all add: part_inv_def s)
  have range: "0 \<le> k" "k < int (nfflies p)" "0 \<le> uint idx" "uint idx < int (nfflies p)"
    using assms(1-5) inv(2,5,6) by simp_all
  have small: "k < 2 ^ 31" "uint idx < 2 ^ 31"
    using assms(3,5) inv(6) by simp_all
  have cell: "cell_ok (light_values p) k"
    using cells_ok_inside [OF inv(1) range(1,2) small(1)] by (simp add: cells_ok_def)
  show ?thesis
  proof (cases "d_le (light_at p k) v")
    case False
    then have "partition_body v k s = Inr (p, idx)"
      using cell by (simp add: partition_body_def s light_at_def)
    moreover have "\<not> d_le (light_at p m) v" if "uint idx \<le> m" "m < k + 1" for m
      using that inv(8) [of m] False by (cases "m = k") simp_all
    ultimately show ?thesis
      using inv by (simp add: part_inv_def)
  next
    case True
    let ?q = "swap3 p (nat k) (nat (uint idx))"
    have succ: "uint (idx + 1) = uint idx + 1"
      using small(2) by (intro uint_succ_64) simp
    have "swap_cells p k (uint idx) = Inr ?q"
      using inv(1) range(1,2) small(1) range(3,4) small(2) by (rule swap_cells_inside)
    then have body: "partition_body v k s = Inr (?q, idx + 1)"
      using True cell by (simp add: partition_body_def s light_at_def)
    have la: "light_at ?q m =
        (if m = uint idx then light_at p k else if m = k then light_at p (uint idx)
         else light_at p m)"
      if "0 \<le> m" for m
      using swap3_light_at [OF inv(1) range(1,2) range(3,4) that] .
    have ra: "row_at ?q m =
        (if m = uint idx then row_at p k else if m = k then row_at p (uint idx)
         else row_at p m)"
      if "0 \<le> m" for m
      using swap3_row_at [OF inv(1) range(1,2) range(3,4) that] .
    have 1: "pop_ok ?q" "nfflies ?q = nfflies p0"
      using inv(1,2) by (simp_all add: swap3_ok swap3_nfflies)
    have 2: "mset (rows ?q) = mset (rows p0)"
      using swap3_mset_int [OF inv(1) range(1,2) range(3,4)] inv(3) by simp
    have 3: "row_at ?q m = row_at p0 m" if "0 \<le> m" "m < left \<or> right < m" for m
      using that ra [of m] inv(4) [of m] inv(5,6) assms(4,5) by auto
    have 4: "d_le (light_at ?q m) v" if "left \<le> m" "m < uint idx + 1" for m
      using that la [of m] inv(7) [of m] True assms(1) inv(5,6) by auto
    have 5: "\<not> d_le (light_at ?q m) v" if "uint idx + 1 \<le> m" "m < k + 1" for m
      using that la [of m] inv(8) [of m] inv(8) [of "uint idx"] assms(1) inv(5,6) by auto
    have 6: "light_at ?q right = v"
      using la [of right] inv(9) inv(5,6) assms(1,4,5) by auto
    show ?thesis
      using 1 2 3 4 5 6 inv(5,6) by (simp add: part_inv_def body succ)
  qed
qed

text \<open>
  What \<open>partition\<close> guarantees for a pivot inside \<open>left..right\<close>: the same individuals,
  untouched outside the range; the returned index inside the range; before it only
  individuals that passed the test \<open>light \<le> intensity\<close> against the pivot, after it only
  individuals that failed it.
\<close>

definition partitioned ::
  "ffly_population \<Rightarrow> int \<Rightarrow> int \<Rightarrow> ffly_population \<Rightarrow> int \<Rightarrow> bool" where
  "partitioned pop left right p' idx \<longleftrightarrow>
     pop_ok p' \<and> nfflies p' = nfflies pop \<and> mset (rows p') = mset (rows pop) \<and>
     (\<forall>m. 0 \<le> m \<and> (m < left \<or> right < m) \<longrightarrow> row_at p' m = row_at pop m) \<and>
     left \<le> idx \<and> idx \<le> right \<and>
     (\<forall>m. left \<le> m \<and> m < idx \<longrightarrow> d_le (light_at p' m) (light_at p' idx)) \<and>
     (\<forall>m. idx < m \<and> m \<le> right \<longrightarrow> \<not> d_le (light_at p' m) (light_at p' idx))"

lemma partition_flies_partitioned:
  assumes ok: "pop_ok pop" and l: "0 \<le> sint left" and lp: "sint left \<le> sint pivot"
    and pr: "sint pivot \<le> sint right" and r: "sint right < int (nfflies pop)"
  shows "\<exists>p' idx. partition_flies pop left right pivot = Inr (p', idx) \<and>
           partitioned pop (sint left) (sint right) p' (uint idx)"
proof -
  define v where "v = light_at pop (sint pivot)"
  define p1 where "p1 = swap3 pop (nat (sint pivot)) (nat (sint right))"
  have pv: "0 \<le> sint pivot" "sint pivot < int (nfflies pop)" and rr: "0 \<le> sint right"
    using l lp pr r by simp_all
  have small: "sint right < 2 ^ 31" "sint pivot < 2 ^ 31"
    using sint_lt [of right] sint_lt [of pivot] by simp_all
  have ul: "uint left = sint left" and ur: "uint right = sint right"
    and sl: "uint (scast left :: 64 word) = sint left"
    using l rr by (simp_all add: uint_nonneg_sint uint_scast_nonneg)
  have cell: "cell_ok (light_values pop) (sint pivot)"
    using cells_ok_inside [OF ok pv small(2)] by (simp add: cells_ok_def)
  have sw1: "swap_cells pop (sint pivot) (sint right) = Inr p1"
    unfolding p1_def using ok pv small(2) rr r small(1) by (rule swap_cells_inside)
  have ra1: "row_at p1 m =
      (if m = sint right then row_at pop (sint pivot)
       else if m = sint pivot then row_at pop (sint right) else row_at pop m)" if "0 \<le> m" for m
    unfolding p1_def using swap3_row_at [OF ok pv rr r that] .
  have la1: "light_at p1 (sint right) = v"
    unfolding p1_def v_def using swap3_light_at [OF ok pv rr r rr] by simp
  have ok1: "pop_ok p1" "nfflies p1 = nfflies pop" "mset (rows p1) = mset (rows pop)"
    using ok by (simp_all add: p1_def swap3_ok swap3_nfflies swap3_mset_int [OF ok pv rr r])
  have out1: "row_at p1 m = row_at pop m" if "0 \<le> m" "m < sint left \<or> sint right < m" for m
    using that lp pr by (auto simp: ra1)
  have start: "part_inv pop (sint left) (sint right) v (sint left) (Inr (p1, scast left))"
    unfolding part_inv_def using ok1 out1 la1 by (auto simp: sl)
  have fin: "part_inv pop (sint left) (sint right) v (sint right - 1 + 1)
      (fold (partition_body v) [sint left..sint right - 1] (Inr (p1, scast left)))"
  proof (rule fold_upto_invariant [where I = "part_inv pop (sint left) (sint right) v"])
    show "part_inv pop (sint left) (sint right) v (sint left) (Inr (p1, scast left))"
      by (rule start)
    show "sint left \<le> sint right - 1 + 1"
      using lp pr by simp
    show "part_inv pop (sint left) (sint right) v (j + 1) (partition_body v j s)"
      if "sint left \<le> j" "j \<le> sint right - 1" "part_inv pop (sint left) (sint right) v j s"
      for j s
      using l r small(1) that by (rule part_inv_step)
  qed
  then obtain p2 k where
    f: "fold (partition_body v) [sint left..sint right - 1] (Inr (p1, scast left)) = Inr (p2, k)"
    by (cases "fold (partition_body v) [sint left..sint right - 1] (Inr (p1, scast left))")
      (auto simp: part_inv_def)
  have inv: "pop_ok p2" "nfflies p2 = nfflies pop" "mset (rows p2) = mset (rows pop)"
    "\<And>m. 0 \<le> m \<Longrightarrow> m < sint left \<or> sint right < m \<Longrightarrow> row_at p2 m = row_at pop m"
    "sint left \<le> uint k" "uint k \<le> sint right"
    "\<And>m. sint left \<le> m \<Longrightarrow> m < uint k \<Longrightarrow> d_le (light_at p2 m) v"
    "\<And>m. uint k \<le> m \<Longrightarrow> m < sint right \<Longrightarrow> \<not> d_le (light_at p2 m) v"
    "light_at p2 (sint right) = v"
    using fin by (simp_all add: part_inv_def f)
  have range: "0 \<le> uint k" "uint k < int (nfflies p2)" "0 \<le> sint right"
    "sint right < int (nfflies p2)"
    using l r inv(2,5,6) by simp_all
  define p' where "p' = swap3 p2 (nat (uint k)) (nat (sint right))"
  have sw2: "swap_cells p2 (uint k) (sint right) = Inr p'"
    unfolding p'_def using inv(1) range(1,2) _ range(3,4) small(1)
    by (rule swap_cells_inside) (use inv(6) small(1) in simp)
  have res: "partition_flies pop left right pivot = Inr (p', k)"
    using cell sw1 f sw2 by (simp add: partition_flies_def Let_def v_def light_at_def ul ur)
  have la: "light_at p' m =
      (if m = sint right then light_at p2 (uint k)
       else if m = uint k then light_at p2 (sint right) else light_at p2 m)"
    if "0 \<le> m" for m
    unfolding p'_def using swap3_light_at [OF inv(1) range that] .
  have ra: "row_at p' m =
      (if m = sint right then row_at p2 (uint k)
       else if m = uint k then row_at p2 (sint right) else row_at p2 m)"
    if "0 \<le> m" for m
    unfolding p'_def using swap3_row_at [OF inv(1) range that] .
  have 1: "pop_ok p'" "nfflies p' = nfflies pop"
    using inv(1,2) by (simp_all add: p'_def swap3_ok swap3_nfflies)
  have 2: "mset (rows p') = mset (rows pop)"
    unfolding p'_def using swap3_mset_int [OF inv(1) range] inv(3) by simp
  have 3: "row_at p' m = row_at pop m" if "0 \<le> m" "m < sint left \<or> sint right < m" for m
    using that ra [of m] inv(4) [of m] inv(5,6) by auto
  have piv: "light_at p' (uint k) = v"
    using la [of "uint k"] range(1) inv(9) by simp
  have 4: "d_le (light_at p' m) (light_at p' (uint k))" if "sint left \<le> m" "m < uint k" for m
    using that la [of m] inv(7) [of m] l inv(6) piv by auto
  have 5: "\<not> d_le (light_at p' m) (light_at p' (uint k))" if "uint k < m" "m \<le> sint right" for m
    using that la [of m] inv(8) [of m] inv(8) [of "uint k"] l inv(5) piv by auto
  have "partitioned pop (sint left) (sint right) p' (uint k)"
    unfolding partitioned_def using 1 2 3 4 5 inv(5,6) by simp
  with res show ?thesis
    by blast
qed

subsection \<open>Individuals of a range\<close>

lemma mset_segment:
  assumes "mset ys = mset xs" and "take L ys = take L xs" and "drop R ys = drop R xs"
    and "L \<le> R"
  shows "mset (take (R - L) (drop L ys)) = mset (take (R - L) (drop L xs))"
proof -
  have split: "zs = take L zs @ take (R - L) (drop L zs) @ drop R zs" for zs :: "'a list"
  proof -
    have "drop (R - L) (drop L zs) = drop R zs"
      using assms(4) by simp
    then have "drop L zs = take (R - L) (drop L zs) @ drop R zs"
      by (metis append_take_drop_id)
    then show ?thesis
      by (metis append_take_drop_id)
  qed
  have "mset (take L ys) + mset (take (R - L) (drop L ys)) + mset (drop R ys) = mset ys"
    using split [of ys] by (metis mset_append add.assoc)
  moreover have "mset (take L xs) + mset (take (R - L) (drop L xs)) + mset (drop R xs) = mset xs"
    using split [of xs] by (metis mset_append add.assoc)
  ultimately have "mset (take L xs) + mset (take (R - L) (drop L ys)) + mset (drop R xs) =
      mset (take L xs) + mset (take (R - L) (drop L xs)) + mset (drop R xs)"
    using assms(1-3) by simp
  then show ?thesis
    by simp
qed

lemma segment_member:
  assumes "mset ys = mset xs" and "take L ys = take L xs" and "drop R ys = drop R xs"
    and "L \<le> A" and "A < R" and "R \<le> length xs"
  shows "\<exists>B. L \<le> B \<and> B < R \<and> ys ! A = xs ! B"
proof -
  have len: "length ys = length xs"
    using assms(1) by (rule mset_eq_length)
  have "mset (take (R - L) (drop L ys)) = mset (take (R - L) (drop L xs))"
    using assms(1-3) by (intro mset_segment) (use assms(4,5) in simp_all)
  then have sets: "set (take (R - L) (drop L ys)) = set (take (R - L) (drop L xs))"
    by (rule mset_eq_setD)
  have "take (R - L) (drop L ys) ! (A - L) = ys ! A"
    using assms(4-6) len by simp
  moreover have "A - L < length (take (R - L) (drop L ys))"
    using assms(4-6) len by simp
  ultimately have "ys ! A \<in> set (take (R - L) (drop L ys))"
    by (metis nth_mem)
  then have "ys ! A \<in> set (take (R - L) (drop L xs))"
    using sets by simp
  then obtain j where j: "j < length (take (R - L) (drop L xs))"
    "take (R - L) (drop L xs) ! j = ys ! A"
    by (auto simp: in_set_conv_nth)
  then have "j < R - L" and "xs ! (L + j) = ys ! A"
    using assms(6) by simp_all
  then show ?thesis
    by (intro exI [of _ "L + j"]) simp
qed

lemma segment_rows:
  assumes p: "pop_ok p" and q: "pop_ok q" and n: "nfflies q = nfflies p"
    and m: "mset (rows q) = mset (rows p)"
    and outer: "\<And>m. 0 \<le> m \<Longrightarrow> m < l \<or> r < m \<Longrightarrow> row_at q m = row_at p m"
    and l: "0 \<le> l" and r: "r < int (nfflies p)" and a: "l \<le> a" "a \<le> r"
  shows "\<exists>b. l \<le> b \<and> b \<le> r \<and> row_at q a = row_at p b"
proof -
  have lens: "length (rows p) = nfflies p" "length (rows q) = nfflies p"
    using p q n by (simp_all add: length_rows)
  have same: "rows q ! k = rows p ! k" if "k < nfflies p" "k < nat l \<or> nat r < k" for k
  proof -
    have "row_at q (int k) = row_at p (int k)"
      using that(2) by (intro outer) auto
    then show ?thesis
      using rows_nth [OF p, of "int k"] rows_nth [OF q, of "int k"] that(1) n by simp
  qed
  have t: "take (nat l) (rows q) = take (nat l) (rows p)"
    by (rule nth_equalityI) (use lens same in auto)
  have d: "drop (Suc (nat r)) (rows q) = drop (Suc (nat r)) (rows p)"
    by (rule nth_equalityI) (use lens same in auto)
  have "\<exists>B. nat l \<le> B \<and> B < Suc (nat r) \<and> rows q ! nat a = rows p ! B"
    using m t d by (rule segment_member) (use l r a lens in auto)
  then obtain B where B: "nat l \<le> B" "B < Suc (nat r)" "rows q ! nat a = rows p ! B"
    by blast
  have "rows q ! nat a = row_at q a"
    using rows_nth [OF q, of a] l r a n by simp
  moreover have "rows p ! B = row_at p (int B)"
    using rows_nth [OF p, of "int B"] B(2) l r a by simp
  ultimately have "row_at q a = row_at p (int B)"
    using B(3) by simp
  then show ?thesis
    using B(1,2) l a by (intro exI [of _ "int B"]) auto
qed

subsection \<open>\<open>sort_flies\<close> ranks a range\<close>

lemma c_div_2: "0 \<le> a \<Longrightarrow> c_div a 2 = a div 2"
  by (cases "a = 0") (simp_all add: c_div_def sgn_if)

lemma ucast_scast_id: "(ucast (scast (w :: 32 word) :: 64 word) :: 32 word) = w"
  by (rule bit_word_eqI) (auto simp: bit_simps)

text \<open>Without overflow of \<open>left + right\<close> the pivot is the middle of the range.\<close>

lemma sint_middle:
  assumes "0 \<le> sint (left :: 32 word)" and "0 \<le> sint (right :: 32 word)"
    and "sint left + sint right < 2 ^ 31"
  shows "sint (int_div (left + right) 2) = (sint left + sint right) div 2"
proof -
  have sum: "sint (left + right) = sint left + sint right"
    using assms by (rule sint_add_small)
  have two: "sint (2 :: 32 word) = 2"
    by simp
  have "sint (word_of_int ((sint left + sint right) div 2) :: 32 word)
      = (sint left + sint right) div 2"
    by (rule sint_word_of_int_small) (use assms in simp_all)
  then show ?thesis
    using assms(1,2) by (simp only: int_div_def sum two) (simp add: c_div_2)
qed

text \<open>
  The result \<open>p'\<close> of ranking the range \<open>left..right\<close> of \<open>pop\<close>: the same individuals,
  untouched outside the range and, when no intensity is NaN, in order of ascending
  intensity inside it.
\<close>

definition ranked :: "ffly_population \<Rightarrow> int \<Rightarrow> int \<Rightarrow> ffly_population \<Rightarrow> bool" where
  "ranked pop left right p' \<longleftrightarrow>
     pop_ok p' \<and> nfflies p' = nfflies pop \<and> mset (rows p') = mset (rows pop) \<and>
     (\<forall>m. 0 \<le> m \<and> (m < left \<or> right < m) \<longrightarrow> row_at p' m = row_at pop m) \<and>
     (NaN \<notin> set (light_values pop) \<longrightarrow>
        (\<forall>a b. left \<le> a \<and> a \<le> b \<and> b \<le> right \<longrightarrow> d_le (light_at p' a) (light_at p' b)))"

lemma sort_flies_ranked:
  "pop_ok pop \<Longrightarrow> 0 \<le> sint left \<Longrightarrow> sint right < int (nfflies pop) \<Longrightarrow>
   nfflies pop \<le> 2 ^ 30 + 1 \<Longrightarrow>
   \<exists>p'. sort_flies pop left right = Inr p' \<and> ranked pop (sint left) (sint right) p'"
proof (induction pop left right rule: sort_flies.induct)
  case (1 pop left right)
  have l0: "0 \<le> sint left" and rn: "sint right < int (nfflies pop)"
    and cap: "nfflies pop \<le> 2 ^ 30 + 1"
    using "1.prems" by simp_all
  show ?case
  proof (cases "left <s right")
    case False
    then have le: "sint right \<le> sint left"
      by (simp add: word_sless_alt)
    have res: "sort_flies pop left right = Inr pop"
      using False by (simp add: sort_flies.simps)
    have "d_le (light_at pop a) (light_at pop b)"
      if "NaN \<notin> set (light_values pop)" "sint left \<le> a" "a \<le> b" "b \<le> sint right" for a b
    proof -
      have "a = b"
        using that le by simp
      moreover have "light_at pop a \<in> set (light_values pop)"
        using "1.prems"(1) by (rule light_at_member) (use that l0 rn in simp_all)
      ultimately show ?thesis
        using that(1) by (metis d_le_refl)
    qed
    then show ?thesis
      using "1.prems"(1) by (simp add: res ranked_def)
  next
    case True
    then have lr: "sint left < sint right"
      by (simp add: word_sless_alt)
    define pivot :: "64 word" where "pivot = scast (int_div (left + right) 2)"
    have r0: "0 \<le> sint right"
      using l0 lr by simp
    have rcap: "sint right \<le> 2 ^ 30"
      using rn cap by simp
    have nosum: "sint left + sint right < 2 ^ 31"
      using lr rcap by simp
    have mid: "sint (ucast pivot :: 32 word) = (sint left + sint right) div 2"
      unfolding pivot_def ucast_scast_id using l0 r0 nosum by (rule sint_middle)
    have pv: "sint left \<le> sint (ucast pivot :: 32 word)"
      "sint (ucast pivot :: 32 word) \<le> sint right"
      using lr by (simp_all add: mid)
    obtain p1 idx where part: "partition_flies pop left right (ucast pivot) = Inr (p1, idx)"
      and P: "partitioned pop (sint left) (sint right) p1 (uint idx)"
      using partition_flies_partitioned [OF "1.prems"(1) l0 pv rn] by blast
    have P1: "pop_ok p1" "nfflies p1 = nfflies pop" "mset (rows p1) = mset (rows pop)"
      "\<And>m. 0 \<le> m \<Longrightarrow> m < sint left \<or> sint right < m \<Longrightarrow> row_at p1 m = row_at pop m"
      "sint left \<le> uint idx" "uint idx \<le> sint right"
      "\<And>m. sint left \<le> m \<Longrightarrow> m < uint idx \<Longrightarrow> d_le (light_at p1 m) (light_at p1 (uint idx))"
      "\<And>m. uint idx < m \<Longrightarrow> m \<le> sint right \<Longrightarrow>
         \<not> d_le (light_at p1 m) (light_at p1 (uint idx))"
      using P by (simp_all add: partitioned_def)
    have isml: "uint idx < 2 ^ 31 - 1"
      using P1(6) rcap by simp
    have below: "sint (ucast (idx - 1) :: 32 word) = uint idx - 1"
      by (rule sint_ucast_pred) (use isml in simp)
    have above: "sint (ucast (idx + 1) :: 32 word) = uint idx + 1"
      using isml by (rule sint_ucast_succ)
    have "\<exists>p'. sort_flies p1 left (ucast (idx - 1)) = Inr p' \<and>
        ranked p1 (sint left) (sint (ucast (idx - 1) :: 32 word)) p'"
      using True pivot_def part refl
    proof (rule "1.IH"(1))
      show "pop_ok p1" "0 \<le> sint left" "sint (ucast (idx - 1) :: 32 word) < int (nfflies p1)"
        "nfflies p1 \<le> 2 ^ 30 + 1"
        using P1(1,2,6) l0 rn cap by (simp_all add: below)
    qed
    then obtain p2 where s1: "sort_flies p1 left (ucast (idx - 1)) = Inr p2"
      and R2: "ranked p1 (sint left) (uint idx - 1) p2"
      by (auto simp: below)
    have P2: "pop_ok p2" "nfflies p2 = nfflies p1" "mset (rows p2) = mset (rows p1)"
      "\<And>m. 0 \<le> m \<Longrightarrow> m < sint left \<or> uint idx - 1 < m \<Longrightarrow> row_at p2 m = row_at p1 m"
      using R2 by (simp_all add: ranked_def)
    have "\<exists>p'. sort_flies p2 (ucast (idx + 1)) right = Inr p' \<and>
        ranked p2 (sint (ucast (idx + 1) :: 32 word)) (sint right) p'"
      using True pivot_def part refl s1
    proof (rule "1.IH"(2))
      show "pop_ok p2" "0 \<le> sint (ucast (idx + 1) :: 32 word)" "sint right < int (nfflies p2)"
        "nfflies p2 \<le> 2 ^ 30 + 1"
        using P2(1,2) P1(2,5) l0 rn cap by (simp_all add: above)
    qed
    then obtain p3 where s2: "sort_flies p2 (ucast (idx + 1)) right = Inr p3"
      and R3: "ranked p2 (uint idx + 1) (sint right) p3"
      by (auto simp: above)
    have P3: "pop_ok p3" "nfflies p3 = nfflies p2" "mset (rows p3) = mset (rows p2)"
      "\<And>m. 0 \<le> m \<Longrightarrow> m < uint idx + 1 \<or> sint right < m \<Longrightarrow> row_at p3 m = row_at p2 m"
      using R3 by (simp_all add: ranked_def)
    have res: "sort_flies pop left right = Inr p3"
      using True part s1 s2 by (subst sort_flies.simps) (simp add: Let_def pivot_def)
    have outer: "row_at p3 m = row_at pop m" if "0 \<le> m" "m < sint left \<or> sint right < m" for m
      using that P3(4) [of m] P2(4) [of m] P1(4) [of m] P1(5,6) by auto
    have order: "d_le (light_at p3 a) (light_at p3 b)"
      if clean: "NaN \<notin> set (light_values pop)"
        and ab: "sint left \<le> a" "a \<le> b" "b \<le> sint right" for a b
    proof -
      have clean1: "NaN \<notin> set (light_values p1)"
        using clean light_set_rows [OF "1.prems"(1) P1(1) P1(3)] by simp
      have clean2: "NaN \<notin> set (light_values p2)"
        using clean1 light_set_rows [OF P1(1) P2(1) P2(3)] by simp
      have num1: "light_at p1 m \<noteq> NaN" if "0 \<le> m" "m < int (nfflies pop)" for m
        using light_at_member [OF P1(1), of m] that clean1 P1(2) by auto
      have O2: "d_le (light_at p2 a) (light_at p2 b)"
        if "sint left \<le> a" "a \<le> b" "b \<le> uint idx - 1" for a b
        using R2 clean1 that by (simp add: ranked_def)
      have O3: "d_le (light_at p3 a) (light_at p3 b)"
        if "uint idx + 1 \<le> a" "a \<le> b" "b \<le> sint right" for a b
        using R3 clean2 that by (simp add: ranked_def)
      have at_idx: "light_at p3 (uint idx) = light_at p1 (uint idx)"
        using P3(4) [of "uint idx"] P2(4) [of "uint idx"] P1(5) l0 by (simp add: light_at_row)
      have low: "light_at p3 a = light_at p2 a" if "sint left \<le> a" "a < uint idx" for a
        using P3(4) [of a] that l0 by (simp add: light_at_row)
      have low_le: "d_le (light_at p3 a) (light_at p1 (uint idx))"
        if "sint left \<le> a" "a < uint idx" for a
      proof -
        have "\<exists>b. sint left \<le> b \<and> b \<le> uint idx - 1 \<and> row_at p2 a = row_at p1 b"
          using P1(1) P2(1,2,3)
        proof (rule segment_rows)
          show "row_at p2 m = row_at p1 m" if "0 \<le> m" "m < sint left \<or> uint idx - 1 < m" for m
            using that by (rule P2(4))
          show "0 \<le> sint left" "uint idx - 1 < int (nfflies p1)" "sint left \<le> a"
            "a \<le> uint idx - 1"
            using l0 rn P1(2,6) that by simp_all
        qed
        then obtain b where b: "sint left \<le> b" "b \<le> uint idx - 1" "row_at p2 a = row_at p1 b"
          by blast
        then have "light_at p2 a = light_at p1 b"
          by (simp add: light_at_row)
        then show ?thesis
          using low [OF that] P1(7) [of b] b(1,2) by simp
      qed
      have high_ge: "d_le (light_at p1 (uint idx)) (light_at p3 a)"
        if "uint idx < a" "a \<le> sint right" for a
      proof -
        have "\<exists>b. uint idx + 1 \<le> b \<and> b \<le> sint right \<and> row_at p3 a = row_at p2 b"
          using P2(1) P3(1,2,3)
        proof (rule segment_rows)
          show "row_at p3 m = row_at p2 m" if "0 \<le> m" "m < uint idx + 1 \<or> sint right < m" for m
            using that by (rule P3(4))
          show "0 \<le> uint idx + 1" "sint right < int (nfflies p2)" "uint idx + 1 \<le> a"
            "a \<le> sint right"
            using l0 rn P1(2,5) P2(2) that by simp_all
        qed
        then obtain b where b: "uint idx + 1 \<le> b" "b \<le> sint right" "row_at p3 a = row_at p2 b"
          by blast
        moreover have "row_at p2 b = row_at p1 b"
          using b(1) P1(5) l0 by (intro P2(4)) simp_all
        ultimately have eq: "light_at p3 a = light_at p1 b"
          by (simp add: light_at_row)
        have "\<not> d_le (light_at p1 b) (light_at p1 (uint idx))"
          using P1(8) [of b] b(1,2) by simp
        moreover have "light_at p1 b \<noteq> NaN" "light_at p1 (uint idx) \<noteq> NaN"
          using num1 [of b] num1 [of "uint idx"] b(1,2) P1(5,6) l0 rn by simp_all
        ultimately have "d_le (light_at p1 (uint idx)) (light_at p1 b)"
          by (intro d_lt_imp_le) (rule not_d_le_imp_lt)
        then show ?thesis
          by (simp add: eq)
      qed
      have self: "d_le (light_at p1 (uint idx)) (light_at p1 (uint idx))"
        using num1 [of "uint idx"] P1(5,6) l0 rn by (intro d_le_refl) simp
      consider "b < uint idx" | "a < uint idx" "b = uint idx" | "a < uint idx" "uint idx < b"
        | "a = uint idx" "b = uint idx" | "a = uint idx" "uint idx < b" | "uint idx < a"
        using ab by linarith
      then show ?thesis
      proof cases
        case 1
        then show ?thesis
          using low [of a] low [of b] O2 [of a b] ab by simp
      next
        case 2
        then show ?thesis
          using low_le [of a] at_idx ab by simp
      next
        case 3
        then show ?thesis
          using low_le [of a] high_ge [of b] ab
          by (intro d_le_trans [of "light_at p3 a" "light_at p1 (uint idx)" "light_at p3 b"])
            simp_all
      next
        case 4
        then show ?thesis
          using self at_idx by simp
      next
        case 5
        then show ?thesis
          using high_ge [of b] at_idx ab by simp
      next
        case 6
        then show ?thesis
          using O3 [of a b] ab by simp
      qed
    qed
    have "ranked pop (sint left) (sint right) p3"
      unfolding ranked_def
      using P3(1) P3(2) P2(2) P1(2) P3(3) P2(3) P1(3) outer order by simp
    then show ?thesis
      using res by simp
  qed
qed

section \<open>Ranking: the properties\<close>

text \<open>
  A population of three individuals, the second with an intensity that is not a number.
\<close>

definition ex_pop_unordered :: ffly_population where
  "ex_pop_unordered =
     \<lparr>nfflies = 3, x_values = [Fin 1, Fin 2, Fin 3], y_values = [Fin 4, Fin 5, Fin 6],
      light_values = [Fin 2, NaN, Fin 1]\<rparr>"

text \<open>
  C3, as stated, fails. The test of line 228 is false whenever an intensity is NaN. On
  the population above \<open>sort_flies\<close> over the full range returns with the intensities
  \<open>NaN, 1, 2\<close>: the first is not less than or equal to the second.
\<close>

theorem sort_flies_counterexample:
  "pop_ok ex_pop_unordered \<and> 1 \<le> nfflies ex_pop_unordered \<and>
   sort_flies ex_pop_unordered 0 (word_of_nat (nfflies ex_pop_unordered - 1)) =
     Inr \<lparr>nfflies = 3, x_values = [Fin 2, Fin 3, Fin 1], y_values = [Fin 5, Fin 6, Fin 4],
          light_values = [NaN, Fin 1, Fin 2]\<rparr> \<and>
   \<not> d_le NaN (Fin 1) \<and>
   \<not> sorted_wrt d_le (light_values (projr
       (sort_flies ex_pop_unordered 0 (word_of_nat (nfflies ex_pop_unordered - 1)))))"
proof -
  have n: "nfflies ex_pop_unordered = 3"
    by (simp add: ex_pop_unordered_def)
  have call: "sort_flies ex_pop_unordered 0 2 =
     Inr \<lparr>nfflies = 3, x_values = [Fin 2, Fin 3, Fin 1], y_values = [Fin 5, Fin 6, Fin 4],
          light_values = [NaN, Fin 1, Fin 2]\<rparr>"
    by code_simp
  show ?thesis
    unfolding n using call by (auto simp: ex_pop_unordered_def pop_ok_def)
qed

text \<open>
  C3, amended. For every population of \<open>N\<close> individuals with \<open>1 \<le> N \<le> 2\<^sup>3\<^sup>0 + 1\<close> whose
  three arrays hold \<open>N\<close> cells and whose intensities are all numbers (none is NaN),
  \<open>sort_flies\<close> on the range \<open>0..N-1\<close> returns without an access outside the arrays,
  leaves the intensities in non-decreasing order, and the tuples \<open>(x, y, intensity)\<close>
  after the call are, as a multiset, those before it.
\<close>

theorem sort_flies_sorts:
  assumes "pop_ok pop" and "1 \<le> nfflies pop" and "nfflies pop \<le> 2 ^ 30 + 1"
    and "NaN \<notin> set (light_values pop)"
  shows "\<not> isl (sort_flies pop 0 (word_of_nat (nfflies pop - 1))) \<and>
         sorted_wrt d_le
           (light_values (projr (sort_flies pop 0 (word_of_nat (nfflies pop - 1))))) \<and>
         mset (rows (projr (sort_flies pop 0 (word_of_nat (nfflies pop - 1)))))
           = mset (rows pop) \<and>
         nfflies (projr (sort_flies pop 0 (word_of_nat (nfflies pop - 1)))) = nfflies pop \<and>
         pop_ok (projr (sort_flies pop 0 (word_of_nat (nfflies pop - 1))))"
proof -
  define r :: "32 word" where "r = word_of_nat (nfflies pop - 1)"
  have "nfflies pop - 1 < 2 ^ 31"
    using assms(3) by simp
  then have "sint r = int (nfflies pop - 1)"
    unfolding r_def by (rule sint_word_of_nat_small)
  then have r: "sint r = int (nfflies pop) - 1"
    using assms(2) by simp
  have l: "0 \<le> sint (0 :: 32 word)"
    by simp
  have u: "sint r < int (nfflies pop)"
    unfolding r by simp
  have "\<exists>p'. sort_flies pop 0 r = Inr p' \<and> ranked pop (sint (0 :: 32 word)) (sint r) p'"
    using assms(1) l u assms(3) by (rule sort_flies_ranked)
  then obtain p' where res: "sort_flies pop 0 r = Inr p'"
    and ranked: "ranked pop 0 (int (nfflies pop) - 1) p'"
    unfolding r by auto
  have p: "pop_ok p'" "nfflies p' = nfflies pop" "mset (rows p') = mset (rows pop)"
    "\<And>a b. 0 \<le> a \<Longrightarrow> a \<le> b \<Longrightarrow> b \<le> int (nfflies pop) - 1 \<Longrightarrow>
       d_le (light_at p' a) (light_at p' b)"
    using ranked assms(4) by (simp_all add: ranked_def)
  have "d_le (light_values p' ! i) (light_values p' ! j)"
    if "i < j" "j < length (light_values p')" for i j
    using p(4) [of "int i" "int j"] that p(1,2) by (simp add: light_at_def pop_ok_def)
  then have "sorted_wrt d_le (light_values p')"
    by (simp add: sorted_wrt_iff_nth_less)
  with p(1-3) have "\<not> isl (sort_flies pop 0 r) \<and>
      sorted_wrt d_le (light_values (projr (sort_flies pop 0 r))) \<and>
      mset (rows (projr (sort_flies pop 0 r))) = mset (rows pop) \<and>
      nfflies (projr (sort_flies pop 0 r)) = nfflies pop \<and>
      pop_ok (projr (sort_flies pop 0 r))"
    by (simp add: res)
  then show ?thesis
    unfolding r_def .
qed

text \<open>A population of four individuals, for the concrete calls below.\<close>

definition ex_pop :: ffly_population where
  "ex_pop = \<lparr>nfflies = 4, x_values = [Fin 1, Fin 2, Fin 3, Fin 4],
              y_values = [Fin 5, Fin 6, Fin 7, Fin 8],
              light_values = [Fin 3, Fin 1, Fin 2, Fin 0]\<rparr>"

theorem sort_flies_sorts_witness:
  "\<not> isl (sort_flies ex_pop 0 (word_of_nat (nfflies ex_pop - 1))) \<and>
   sorted_wrt d_le
     (light_values (projr (sort_flies ex_pop 0 (word_of_nat (nfflies ex_pop - 1))))) \<and>
   mset (rows (projr (sort_flies ex_pop 0 (word_of_nat (nfflies ex_pop - 1)))))
     = mset (rows ex_pop) \<and>
   nfflies (projr (sort_flies ex_pop 0 (word_of_nat (nfflies ex_pop - 1)))) = nfflies ex_pop \<and>
   pop_ok (projr (sort_flies ex_pop 0 (word_of_nat (nfflies ex_pop - 1))))"
proof -
  have "pop_ok ex_pop" and "1 \<le> nfflies ex_pop" and "nfflies ex_pop \<le> 2 ^ 30 + 1"
    and "NaN \<notin> set (light_values ex_pop)"
    by (simp_all add: ex_pop_def pop_ok_def)
  then show ?thesis
    by (rule sort_flies_sorts)
qed

text \<open>
  A population of \<open>2\<^sup>3\<^sup>0 + 2\<close> individuals, all at the origin with intensity zero.
\<close>

definition ex_pop_large :: ffly_population where
  "ex_pop_large =
     \<lparr>nfflies = 1073741826, x_values = replicate 1073741826 (Fin 0),
      y_values = replicate 1073741826 (Fin 0), light_values = replicate 1073741826 (Fin 0)\<rparr>"

text \<open>
  C10, as stated, fails. On the population above the call with \<open>left = 2\<^sup>3\<^sup>0\<close> and
  \<open>right = 2\<^sup>3\<^sup>0 + 1\<close> has \<open>0 \<le> left\<close> and \<open>right < N\<close>. The sum \<open>left + right\<close> does not fit
  in an \<open>int\<close>: it wraps around to \<open>- 2147483647\<close>, the pivot is \<open>- 1073741823\<close>, and
  \<open>partition\<close> reads \<open>light_values\<close> outside the array. No partition index is returned
  and the call does not return normally.
\<close>

theorem sort_flies_overflow_counterexample:
  "pop_ok ex_pop_large \<and>
   0 \<le> sint (1073741824 :: 32 word) \<and>
   sint (1073741825 :: 32 word) < int (nfflies ex_pop_large) \<and>
   sint (1073741824 + 1073741825 :: 32 word) = - 2147483647 \<and>
   sint (int_div (1073741824 + 1073741825) 2) = - 1073741823 \<and>
   partition_flies ex_pop_large 1073741824 1073741825
     (ucast (scast (int_div (1073741824 + 1073741825) 2) :: 64 word)) = Inl OutOfBounds \<and>
   sort_flies ex_pop_large 1073741824 1073741825 = Inl OutOfBounds"
proof -
  have "sort_flies ex_pop_large 1073741824 1073741825 = Inl OutOfBounds"
    by (subst sort_flies.simps)
      (simp add: word_sless_alt int_div_def c_div_def partition_flies_def cell_ok_def)
  then show ?thesis
    by (simp add: ex_pop_large_def pop_ok_def int_div_def c_div_def partition_flies_def
        cell_ok_def)
qed

text \<open>
  C10, amended. For every population of \<open>N \<le> 2\<^sup>3\<^sup>0 + 1\<close> individuals whose three arrays
  hold \<open>N\<close> cells, every call of \<open>sort_flies\<close> with \<open>0 \<le> left\<close> and \<open>right < N\<close> ends and
  returns without an access outside the arrays. With \<open>right \<le> left\<close> the population is
  returned as it is. Otherwise \<open>partition\<close> returns an index in \<open>left..right\<close>, so the
  ranges \<open>left..pivot - 1\<close> and \<open>pivot + 1..right\<close> of the two recursive calls are strictly
  shorter than \<open>left..right\<close>, also when \<open>pivot - 1\<close> falls below \<open>left\<close>.
\<close>

theorem sort_flies_terminates:
  assumes "pop_ok pop" and "0 \<le> sint left" and "sint right < int (nfflies pop)"
    and "nfflies pop \<le> 2 ^ 30 + 1"
  shows "sort_flies_dom (pop, left, right) \<and>
         \<not> isl (sort_flies pop left right) \<and>
         (\<not> left <s right \<longrightarrow> sort_flies pop left right = Inr pop) \<and>
         (left <s right \<longrightarrow>
            (\<exists>p1 pivot.
               partition_flies pop left right
                 (ucast (scast (int_div (left + right) 2) :: 64 word)) = Inr (p1, pivot) \<and>
               sint left \<le> uint pivot \<and> uint pivot \<le> sint right \<and>
               sint (ucast (pivot - 1) :: 32 word) = uint pivot - 1 \<and>
               sint (ucast (pivot + 1) :: 32 word) = uint pivot + 1 \<and>
               sint (ucast (pivot - 1) :: 32 word) - sint left < sint right - sint left \<and>
               sint right - sint (ucast (pivot + 1) :: 32 word) < sint right - sint left))"
proof (intro conjI impI)
  show "sort_flies_dom (pop, left, right)"
    by (rule sort_flies_total)
next
  show "\<not> isl (sort_flies pop left right)"
    using sort_flies_ranked [OF assms] by auto
next
  assume "\<not> left <s right"
  then show "sort_flies pop left right = Inr pop"
    by (simp add: sort_flies.simps)
next
  assume lr: "left <s right"
  then have lt: "sint left < sint right"
    by (simp add: word_sless_alt)
  have r0: "0 \<le> sint right" and rcap: "sint right \<le> 2 ^ 30"
    using assms(2-4) lt by simp_all
  have "sint (ucast (scast (int_div (left + right) 2) :: 64 word) :: 32 word)
      = (sint left + sint right) div 2"
    unfolding ucast_scast_id using assms(2) r0 by (rule sint_middle) (use lt rcap in simp)
  then have pv: "sint left \<le> sint (ucast (scast (int_div (left + right) 2) :: 64 word) :: 32 word)"
    "sint (ucast (scast (int_div (left + right) 2) :: 64 word) :: 32 word) \<le> sint right"
    using lt by simp_all
  obtain p1 idx where part: "partition_flies pop left right
      (ucast (scast (int_div (left + right) 2) :: 64 word)) = Inr (p1, idx)"
    and P: "partitioned pop (sint left) (sint right) p1 (uint idx)"
    using partition_flies_partitioned [OF assms(1,2) pv assms(3)] by blast
  have b: "sint left \<le> uint idx" "uint idx \<le> sint right"
    using P by (simp_all add: partitioned_def)
  have isml: "uint idx < 2 ^ 31 - 1"
    using b(2) rcap by simp
  have below: "sint (ucast (idx - 1) :: 32 word) = uint idx - 1"
    by (rule sint_ucast_pred) (use isml in simp)
  have above: "sint (ucast (idx + 1) :: 32 word) = uint idx + 1"
    using isml by (rule sint_ucast_succ)
  show "\<exists>p1 pivot.
      partition_flies pop left right
        (ucast (scast (int_div (left + right) 2) :: 64 word)) = Inr (p1, pivot) \<and>
      sint left \<le> uint pivot \<and> uint pivot \<le> sint right \<and>
      sint (ucast (pivot - 1) :: 32 word) = uint pivot - 1 \<and>
      sint (ucast (pivot + 1) :: 32 word) = uint pivot + 1 \<and>
      sint (ucast (pivot - 1) :: 32 word) - sint left < sint right - sint left \<and>
      sint right - sint (ucast (pivot + 1) :: 32 word) < sint right - sint left"
    using part b below above by (intro exI [of _ p1] exI [of _ idx]) simp
qed

theorem sort_flies_terminates_witness:
  "sort_flies_dom (ex_pop, 0, 3) \<and>
   \<not> isl (sort_flies ex_pop 0 3) \<and>
   (0 :: 32 word) <s 3 \<and>
   (\<exists>p1 pivot.
      partition_flies ex_pop 0 3 (ucast (scast (int_div (0 + 3) 2) :: 64 word))
        = Inr (p1, pivot) \<and>
      sint (0 :: 32 word) \<le> uint pivot \<and> uint pivot \<le> sint (3 :: 32 word) \<and>
      sint (ucast (pivot - 1) :: 32 word) = uint pivot - 1 \<and>
      sint (ucast (pivot + 1) :: 32 word) = uint pivot + 1 \<and>
      sint (ucast (pivot - 1) :: 32 word) - sint (0 :: 32 word)
        < sint (3 :: 32 word) - sint (0 :: 32 word) \<and>
      sint (3 :: 32 word) - sint (ucast (pivot + 1) :: 32 word)
        < sint (3 :: 32 word) - sint (0 :: 32 word)) \<and>
   \<not> (3 :: 32 word) <s 3 \<and>
   sort_flies ex_pop 3 3 = Inr ex_pop"
proof -
  have pre: "pop_ok ex_pop" "0 \<le> sint (0 :: 32 word)" "sint (3 :: 32 word) < int (nfflies ex_pop)"
    "nfflies ex_pop \<le> 2 ^ 30 + 1" "0 \<le> sint (3 :: 32 word)"
    by (simp_all add: ex_pop_def pop_ok_def)
  have lt: "(0 :: 32 word) <s 3" "\<not> (3 :: 32 word) <s 3"
    by (simp_all add: word_sless_alt)
  show ?thesis
    using sort_flies_terminates [OF pre(1,2,3,4)] sort_flies_terminates [OF pre(1,5,3,4)] lt
    by blast
qed

end
